theory Spec2Isabelle
  imports Complex_Main "HOL-Library.FSet" "HOL-Library.AList"
begin

section \<open>Data model of \<open>graph_coloring.py\<close>\<close>

text \<open>
  Python exceptions are values: \<open>ValueError\<close> is raised by \<open>add_edge\<close>, \<open>KeyError\<close> by a
  subscript on the plain dict \<open>nodes\<close> with a missing key. A procedure that both mutates
  the graph and may raise returns a pair: the outcome and the graph as the procedure left
  it (an exception does not roll anything back).
\<close>

datatype error = ValueError | KeyError

text \<open>
  The dataclass \<open>Node\<close>. Floats are idealised as rationals; \<open>position\<close> is opaque to the
  engine. A Python \<open>set\<close> of ints is a finite set.
\<close>

record node =
  node_id :: int
  position :: "rat \<times> rat"
  color :: "int option"
  degree :: int
  saturation :: int
  neighbors :: "int fset"

text \<open>
  The class \<open>Graph\<close>. Both dicts keep insertion order, so they are association lists;
  \<open>adjacency\<close> is a \<open>defaultdict(set)\<close>, read through \<open>dd_get\<close> below.
\<close>

record graph =
  nodes :: "(int \<times> node) list"
  edges :: "(int \<times> int) list"
  adjacency :: "(int \<times> int fset) list"

definition empty_graph :: graph where
  "empty_graph = \<lparr>nodes = [], edges = [], adjacency = []\<rparr>"

definition new_node :: "int \<Rightarrow> rat \<times> rat \<Rightarrow> node" where
  "new_node k pos =
     \<lparr>node_id = k, position = pos, color = None, degree = 0, saturation = 0,
      neighbors = {||}\<rparr>"

section \<open>Graph operations\<close>

definition add_node :: "graph \<Rightarrow> int \<Rightarrow> rat \<times> rat \<Rightarrow> graph" where
  "add_node g k pos =
     (if map_of (nodes g) k = None
      then g\<lparr>nodes := nodes g @ [(k, new_node k pos)]\<rparr>
      else g)"

text \<open>\<open>Graph(num_nodes)\<close>: nodes \<open>0 .. num_nodes - 1\<close> at the default position.\<close>

definition graph_init :: "int \<Rightarrow> graph" where
  "graph_init num_nodes = fold (\<lambda>i g. add_node g i (0, 0)) [0 .. num_nodes - 1] empty_graph"

text \<open>
  \<open>d[k]\<close> on a \<open>defaultdict(set)\<close>: a missing key is inserted with an empty set, and the
  read returns that set.
\<close>

definition dd_get :: "(int \<times> int fset) list \<Rightarrow> int \<Rightarrow> int fset \<times> (int \<times> int fset) list" where
  "dd_get d k = (case map_of d k of Some s \<Rightarrow> (s, d) | None \<Rightarrow> ({||}, d @ [(k, {||})]))"

text \<open>\<open>d[k].add(x)\<close> on the same dict.\<close>

definition dd_add :: "(int \<times> int fset) list \<Rightarrow> int \<Rightarrow> int \<Rightarrow> (int \<times> int fset) list" where
  "dd_add d k x = (case dd_get d k of (s, d') \<Rightarrow> AList.update k (finsert x s) d')"

text \<open>
  A write to a field of \<open>nodes[k]\<close>: the subscript raises \<open>KeyError\<close> when \<open>k\<close> is missing,
  otherwise the \<open>Node\<close> object stored under \<open>k\<close> is changed in place.
\<close>

definition update_node :: "graph \<Rightarrow> int \<Rightarrow> (node \<Rightarrow> node) \<Rightarrow> (error + unit) \<times> graph" where
  "update_node g k f =
     (case map_of (nodes g) k of
        None \<Rightarrow> (Inl KeyError, g)
      | Some n \<Rightarrow> (Inr (), g\<lparr>nodes := AList.map_entry k f (nodes g)\<rparr>))"

text \<open>
  \<open>add_edge\<close>. The membership test of line 47 comes first and writes nothing; after it
  both keys are present, so the four field writes on \<open>nodes[u]\<close> and \<open>nodes[v]\<close> cannot
  raise.
\<close>

definition add_edge :: "graph \<Rightarrow> int \<Rightarrow> int \<Rightarrow> (error + unit) \<times> graph" where
  "add_edge g u v =
     (if map_of (nodes g) u = None \<or> map_of (nodes g) v = None then (Inl ValueError, g)
      else if u = v then (Inr (), g)
      else (case dd_get (adjacency g) u of (su, a1) \<Rightarrow>
        if v |\<in>| su then (Inr (), g\<lparr>adjacency := a1\<rparr>)
        else (Inr (),
          g\<lparr>edges := edges g @ [(u, v)],
            adjacency := dd_add (dd_add a1 u v) v u,
            nodes :=
              AList.map_entry v (\<lambda>n. n\<lparr>neighbors := finsert u (neighbors n)\<rparr>)
               (AList.map_entry u (\<lambda>n. n\<lparr>neighbors := finsert v (neighbors n)\<rparr>)
                 (AList.map_entry v (\<lambda>n. n\<lparr>degree := degree n + 1\<rparr>)
                   (AList.map_entry u (\<lambda>n. n\<lparr>degree := degree n + 1\<rparr>) (nodes g))))\<rparr>)))"

text \<open>
  \<open>get_neighbor_colors\<close>. The read \<open>self.adjacency[node_id]\<close> goes through the
  defaultdict, so it may insert a key; the loop then reads \<open>self.nodes[neighbor]\<close> for
  every neighbour and raises \<open>KeyError\<close> when one is missing. The collected value is a
  set, so the iteration order does not show in it.
\<close>

definition node_color :: "graph \<Rightarrow> int \<Rightarrow> int option" where
  "node_color g k = (case map_of (nodes g) k of None \<Rightarrow> None | Some n \<Rightarrow> color n)"

definition get_neighbor_colors :: "graph \<Rightarrow> int \<Rightarrow> (error + int fset) \<times> graph" where
  "get_neighbor_colors g k =
     (case dd_get (adjacency g) k of (nbrs, a) \<Rightarrow>
        if fBall nbrs (\<lambda>n. map_of (nodes g) n \<noteq> None)
        then (Inr ((\<lambda>n. the (node_color g n)) |`| ffilter (\<lambda>n. node_color g n \<noteq> None) nbrs),
              g\<lparr>adjacency := a\<rparr>)
        else (Inl KeyError, g\<lparr>adjacency := a\<rparr>))"

definition get_chromatic_number :: "graph \<Rightarrow> int" where
  "get_chromatic_number g =
     int (fcard (fset_of_list (List.map_filter (\<lambda>(k, n). color n) (nodes g))))"

text \<open>
  \<open>count_conflicts\<close>: the \<open>and\<close> chain short-circuits, so \<open>nodes[v]\<close> is only read when
  \<open>nodes[u]\<close> is coloured.
\<close>

fun count_conflicts_loop :: "(int \<times> node) list \<Rightarrow> (int \<times> int) list \<Rightarrow> int \<Rightarrow> error + int" where
  "count_conflicts_loop ns [] conflicts = Inr conflicts"
| "count_conflicts_loop ns ((u, v) # es) conflicts =
     (case map_of ns u of
        None \<Rightarrow> Inl KeyError
      | Some nu \<Rightarrow>
         (case color nu of
            None \<Rightarrow> count_conflicts_loop ns es conflicts
          | Some cu \<Rightarrow>
             (case map_of ns v of
                None \<Rightarrow> Inl KeyError
              | Some nv \<Rightarrow>
                 (case color nv of
                    None \<Rightarrow> count_conflicts_loop ns es conflicts
                  | Some cv \<Rightarrow>
                     if cu = cv then count_conflicts_loop ns es (conflicts + 1)
                     else count_conflicts_loop ns es conflicts))))"

definition count_conflicts :: "graph \<Rightarrow> error + int" where
  "count_conflicts g = count_conflicts_loop (nodes g) (edges g) 0"

definition reset_colors :: "graph \<Rightarrow> graph" where
  "reset_colors g =
     g\<lparr>nodes := map (\<lambda>(k, n). (k, n\<lparr>color := None, saturation := 0\<rparr>)) (nodes g)\<rparr>"

section \<open>The frequency assigner\<close>

text \<open>The \<open>while\<close> loop of \<open>get_smallest_available_color\<close>, started at \<open>color\<close>.\<close>

function first_free_from :: "int fset \<Rightarrow> int \<Rightarrow> int" where
  "first_free_from neighbor_colors c =
     (if c |\<in>| neighbor_colors then first_free_from neighbor_colors (c + 1) else c)"
  by pat_completeness auto
termination
proof (relation "measure (\<lambda>(S, c). card {x \<in> fset S. c \<le> x})")
  show "wf (measure (\<lambda>(S, c). card {x \<in> fset S. c \<le> x}))"
    by simp
next
  fix S :: "int fset" and c :: int
  assume "c |\<in>| S"
  then have "c \<in> {x \<in> fset S. c \<le> x}" and "c \<notin> {x \<in> fset S. c + 1 \<le> x}"
    by auto
  then have "{x \<in> fset S. c + 1 \<le> x} \<subset> {x \<in> fset S. c \<le> x}"
    by fastforce
  then have "card {x \<in> fset S. c + 1 \<le> x} < card {x \<in> fset S. c \<le> x}"
    by (intro psubset_card_mono) auto
  then show "((S, c + 1), (S, c)) \<in> measure (\<lambda>(S, c). card {x \<in> fset S. c \<le> x})"
    by simp
qed

declare first_free_from.simps [simp del]

definition get_smallest_available_color :: "int fset \<Rightarrow> int" where
  "get_smallest_available_color neighbor_colors = first_free_from neighbor_colors 0"


text \<open>
  The statistics dict of \<open>_compute_stats\<close>; its keys \<open>nodes\<close> and \<open>edges\<close> are the fields
  \<open>stat_nodes\<close> and \<open>stat_edges\<close>. \<open>round(x, 2)\<close> on the idealised rationals rounds to two
  decimals, a tie going to the even neighbour.
\<close>

record stats =
  algorithm :: string
  chromatic_number :: int
  conflicts :: int
  time_ms :: rat
  efficiency :: rat
  stat_nodes :: int
  stat_edges :: int

definition round_half_even :: "rat \<Rightarrow> int" where
  "round_half_even x =
     (let f = \<lfloor>x\<rfloor>; d = x - of_int f
      in if d < 1 / 2 then f else if 1 / 2 < d then f + 1 else if even f then f else f + 1)"

definition py_round2 :: "rat \<Rightarrow> rat" where
  "py_round2 x = of_int (round_half_even (x * 100)) / 100"

text \<open>
  \<open>_compute_stats\<close> reads the graph and writes only \<open>self.stats\<close> (the record it returns);
  \<open>elapsed_time\<close> is the clock difference its caller measured.
\<close>

definition compute_stats :: "string \<Rightarrow> rat \<Rightarrow> graph \<Rightarrow> error + stats" where
  "compute_stats alg elapsed_time g =
     (let chromatic = get_chromatic_number g in
      case count_conflicts g of
        Inl e \<Rightarrow> Inl e
      | Inr cf \<Rightarrow>
         (let num_nodes = int (length (nodes g));
              eff = (if num_nodes > 0
                     then of_int (num_nodes - chromatic) / of_int num_nodes * 100
                     else 0)
          in Inr \<lparr>algorithm = alg, chromatic_number = chromatic, conflicts = cf,
                  time_ms = py_round2 (elapsed_time * 1000), efficiency = py_round2 eff,
                  stat_nodes = num_nodes, stat_edges = int (length (edges g))\<rparr>))"

text \<open>A \<open>for\<close> loop whose body may raise: the first exception ends it.\<close>

fun for_each :: "('a \<Rightarrow> graph \<Rightarrow> (error + unit) \<times> graph) \<Rightarrow> 'a list \<Rightarrow> graph
    \<Rightarrow> (error + unit) \<times> graph" where
  "for_each body [] g = (Inr (), g)"
| "for_each body (x # xs) g =
     (case body x g of (Inl e, g') \<Rightarrow> (Inl e, g') | (Inr _, g') \<Rightarrow> for_each body xs g')"

text \<open>The two lines of the first-fit loop body shared by Greedy and Welsh-Powell.\<close>

definition assign_first_fit :: "int \<Rightarrow> int \<Rightarrow> graph \<Rightarrow> (error + unit) \<times> graph" where
  "assign_first_fit key ident g =
     (case get_neighbor_colors g ident of
        (Inl e, g1) \<Rightarrow> (Inl e, g1)
      | (Inr neighbor_colors, g1) \<Rightarrow>
          update_node g1 key (\<lambda>n. n\<lparr>color := Some (get_smallest_available_color neighbor_colors)\<rparr>))"

definition greedy_coloring :: "rat \<Rightarrow> graph \<Rightarrow> (error + stats) \<times> graph" where
  "greedy_coloring elapsed g =
     (let g0 = reset_colors g in
      case for_each (\<lambda>k. assign_first_fit k k) (sort (map fst (nodes g0))) g0 of
        (Inl e, g1) \<Rightarrow> (Inl e, g1)
      | (Inr _, g1) \<Rightarrow> (compute_stats ''Greedy'' elapsed g1, g1))"

text \<open>
  Welsh-Powell sorts the \<open>Node\<close> objects themselves (stable, descending degree) and
  writes \<open>node.color\<close> through the object, which is the one stored in the dict under its
  key; the neighbour colours are read for \<open>node.id\<close>.
\<close>

definition welsh_powell :: "rat \<Rightarrow> graph \<Rightarrow> (error + stats) \<times> graph" where
  "welsh_powell elapsed g =
     (let g0 = reset_colors g;
          sorted_nodes = sort_key (\<lambda>(k, n). - degree n) (nodes g0) in
      case for_each (\<lambda>(k, n). assign_first_fit k (node_id n)) sorted_nodes g0 of
        (Inl e, g1) \<Rightarrow> (Inl e, g1)
      | (Inr _, g1) \<Rightarrow> (compute_stats ''Welsh-Powell'' elapsed g1, g1))"

definition largest_first :: "rat \<Rightarrow> graph \<Rightarrow> (error + stats) \<times> graph" where
  "largest_first elapsed g = welsh_powell elapsed g"

subsection \<open>DSATUR\<close>

text \<open>
  Python does not fix the order in which a \<open>set\<close> is iterated. The model takes it as a
  parameter \<open>rank\<close>: a set is iterated by ascending rank (CPython iterates a small set of
  small non-negative ints by hash slot, \<open>rank i = i mod 8\<close>). \<open>max\<close> keeps the first
  element whose key is strictly greater than every key before it.
\<close>

definition iter_set :: "(int \<Rightarrow> nat) \<Rightarrow> int fset \<Rightarrow> int list" where
  "iter_set rank S = sort_key rank (sorted_list_of_fset S)"

fun py_max_loop :: "('a \<Rightarrow> error + 'k) \<Rightarrow> ('k \<Rightarrow> 'k \<Rightarrow> bool) \<Rightarrow> 'a \<Rightarrow> 'k \<Rightarrow> 'a list \<Rightarrow> error + 'a" where
  "py_max_loop key gt best kb [] = Inr best"
| "py_max_loop key gt best kb (x # xs) =
     (case key x of
        Inl e \<Rightarrow> Inl e
      | Inr kx \<Rightarrow> if gt kx kb then py_max_loop key gt x kx xs
                  else py_max_loop key gt best kb xs)"

definition py_max :: "('a \<Rightarrow> error + 'k) \<Rightarrow> ('k \<Rightarrow> 'k \<Rightarrow> bool) \<Rightarrow> 'a list \<Rightarrow> error + 'a" where
  "py_max key gt xs =
     (case xs of
        [] \<Rightarrow> Inl ValueError
      | x # xs' \<Rightarrow> (case key x of Inl e \<Rightarrow> Inl e | Inr kx \<Rightarrow> py_max_loop key gt x kx xs'))"

definition node_field :: "graph \<Rightarrow> (node \<Rightarrow> 'a) \<Rightarrow> int \<Rightarrow> error + 'a" where
  "node_field g f k = (case map_of (nodes g) k of None \<Rightarrow> Inl KeyError | Some n \<Rightarrow> Inr (f n))"

definition int_gt :: "int \<Rightarrow> int \<Rightarrow> bool" where
  "int_gt a b = (b < a)"

text \<open>Python compares the key tuples \<open>(saturation, degree)\<close> lexicographically.\<close>

definition tuple_gt :: "int \<times> int \<Rightarrow> int \<times> int \<Rightarrow> bool" where
  "tuple_gt a b = (fst b < fst a \<or> (fst a = fst b \<and> snd b < snd a))"

definition select_first :: "(int \<Rightarrow> nat) \<Rightarrow> graph \<Rightarrow> int fset \<Rightarrow> error + int" where
  "select_first rank g uncolored = py_max (node_field g degree) int_gt (iter_set rank uncolored)"

definition select_next :: "(int \<Rightarrow> nat) \<Rightarrow> graph \<Rightarrow> int fset \<Rightarrow> error + int" where
  "select_next rank g uncolored =
     py_max (node_field g (\<lambda>n. (saturation n, degree n))) tuple_gt (iter_set rank uncolored)"

text \<open>\<open>uncolored.remove(x)\<close> raises \<open>KeyError\<close> when \<open>x\<close> is not in the set.\<close>

definition set_remove :: "int fset \<Rightarrow> int \<Rightarrow> error + int fset" where
  "set_remove S x = (if x |\<in>| S then Inr (S |-| {|x|}) else Inl KeyError)"

text \<open>Lines 149 to 157: the seed step.\<close>

definition bump_saturation :: "int fset \<Rightarrow> int \<Rightarrow> graph \<Rightarrow> (error + unit) \<times> graph" where
  "bump_saturation uncolored neighbor g =
     (if neighbor |\<in>| uncolored
      then update_node g neighbor (\<lambda>n. n\<lparr>saturation := saturation n + 1\<rparr>)
      else (Inr (), g))"

definition dsatur_seed :: "(int \<Rightarrow> nat) \<Rightarrow> int fset \<Rightarrow> graph \<Rightarrow> (error + int fset) \<times> graph" where
  "dsatur_seed rank uncolored g =
     (if uncolored = {||} then (Inr uncolored, g)
      else case select_first rank g uncolored of
        Inl e \<Rightarrow> (Inl e, g)
      | Inr first_node \<Rightarrow>
         (case update_node g first_node (\<lambda>n. n\<lparr>color := Some 0\<rparr>) of
            (Inl e, g1) \<Rightarrow> (Inl e, g1)
          | (Inr _, g1) \<Rightarrow>
             (case set_remove uncolored first_node of
                Inl e \<Rightarrow> (Inl e, g1)
              | Inr uncolored' \<Rightarrow>
                 (case dd_get (adjacency g1) first_node of (nbrs, a) \<Rightarrow>
                    (case for_each (bump_saturation uncolored') (iter_set rank nbrs)
                            (g1\<lparr>adjacency := a\<rparr>) of
                       (Inl e, g2) \<Rightarrow> (Inl e, g2)
                     | (Inr _, g2) \<Rightarrow> (Inr uncolored', g2))))))"

text \<open>Lines 161 to 179: one turn of the \<open>while\<close> loop.\<close>

definition refresh_saturation :: "int fset \<Rightarrow> int \<Rightarrow> graph \<Rightarrow> (error + unit) \<times> graph" where
  "refresh_saturation uncolored neighbor g =
     (if neighbor |\<in>| uncolored
      then (case get_neighbor_colors g neighbor of
              (Inl e, g1) \<Rightarrow> (Inl e, g1)
            | (Inr neighbor_colors, g1) \<Rightarrow>
                update_node g1 neighbor (\<lambda>n. n\<lparr>saturation := int (fcard neighbor_colors)\<rparr>))
      else (Inr (), g))"

definition dsatur_step :: "(int \<Rightarrow> nat) \<Rightarrow> int fset \<Rightarrow> graph \<Rightarrow> (error + int fset) \<times> graph" where
  "dsatur_step rank uncolored g =
     (case select_next rank g uncolored of
        Inl e \<Rightarrow> (Inl e, g)
      | Inr selected \<Rightarrow>
         (case assign_first_fit selected selected g of
            (Inl e, g1) \<Rightarrow> (Inl e, g1)
          | (Inr _, g1) \<Rightarrow>
             (case set_remove uncolored selected of
                Inl e \<Rightarrow> (Inl e, g1)
              | Inr uncolored' \<Rightarrow>
                 (case dd_get (adjacency g1) selected of (nbrs, a) \<Rightarrow>
                    (case for_each (refresh_saturation uncolored') (iter_set rank nbrs)
                            (g1\<lparr>adjacency := a\<rparr>) of
                       (Inl e, g2) \<Rightarrow> (Inl e, g2)
                     | (Inr _, g2) \<Rightarrow> (Inr uncolored', g2))))))"

function dsatur_loop :: "(int \<Rightarrow> nat) \<Rightarrow> int fset \<Rightarrow> graph \<Rightarrow> (error + unit) \<times> graph" where
  "dsatur_loop rank uncolored g =
     (if uncolored = {||} then (Inr (), g)
      else case dsatur_step rank uncolored g of
        (Inl e, g') \<Rightarrow> (Inl e, g')
      | (Inr uncolored', g') \<Rightarrow> dsatur_loop rank uncolored' g')"
  by pat_completeness auto
termination
proof (relation "measure (\<lambda>(rank, uncolored, g). fcard uncolored)", goal_cases)
  case 1
  show ?case
    by simp
next
  case (2 rank uncolored g x y b)
  then have "dsatur_step rank uncolored g = (Inr b, y)"
    by simp
  then obtain s where "set_remove uncolored s = Inr b"
    by (auto simp: dsatur_step_def split: sum.splits prod.splits)
  then have "s |\<in>| uncolored" and "b = uncolored |-| {|s|}"
    by (auto simp: set_remove_def split: if_splits)
  then have "fcard b < fcard uncolored"
    using fcard_fminus1_less [of s uncolored] by blast
  then show ?case
    by simp
qed

declare dsatur_loop.simps [simp del]

definition dsatur :: "(int \<Rightarrow> nat) \<Rightarrow> rat \<Rightarrow> graph \<Rightarrow> (error + stats) \<times> graph" where
  "dsatur rank elapsed g =
     (let g0 = reset_colors g;
          uncolored = fset_of_list (map fst (nodes g0)) in
      case dsatur_seed rank uncolored g0 of
        (Inl e, g1) \<Rightarrow> (Inl e, g1)
      | (Inr uncolored', g1) \<Rightarrow>
         (case dsatur_loop rank uncolored' g1 of
            (Inl e, g2) \<Rightarrow> (Inl e, g2)
          | (Inr _, g2) \<Rightarrow> (compute_stats ''DSATUR'' elapsed g2, g2)))"

subsection \<open>Exact backtracking\<close>

text \<open>
  \<open>backtrack(idx)\<close> is given the slice \<open>node_ids[idx:]\<close> in place of \<open>idx\<close>;
  \<open>try_colors\<close> is its \<open>for color in range(max_colors)\<close> loop, which keeps the
  \<open>neighbor_colors\<close> computed before the loop. \<open>colors\<close> is \<open>range(max_colors)\<close>.
\<close>

function backtrack :: "int list \<Rightarrow> int list \<Rightarrow> graph \<Rightarrow> (error + bool) \<times> graph"
  and try_colors :: "int list \<Rightarrow> int list \<Rightarrow> int \<Rightarrow> int fset \<Rightarrow> int list \<Rightarrow> graph
      \<Rightarrow> (error + bool) \<times> graph" where
  "backtrack colors [] g = (Inr True, g)"
| "backtrack colors (k # rest) g =
     (case get_neighbor_colors g k of
        (Inl e, g1) \<Rightarrow> (Inl e, g1)
      | (Inr neighbor_colors, g1) \<Rightarrow> try_colors colors rest k neighbor_colors colors g1)"
| "try_colors colors rest k neighbor_colors [] g = (Inr False, g)"
| "try_colors colors rest k neighbor_colors (c # cs) g =
     (if c |\<notin>| neighbor_colors
      then (case update_node g k (\<lambda>n. n\<lparr>color := Some c\<rparr>) of
              (Inl e, g1) \<Rightarrow> (Inl e, g1)
            | (Inr _, g1) \<Rightarrow>
               (case backtrack colors rest g1 of
                  (Inl e, g2) \<Rightarrow> (Inl e, g2)
                | (Inr ok, g2) \<Rightarrow>
                   if ok then (Inr True, g2)
                   else (case update_node g2 k (\<lambda>n. n\<lparr>color := None\<rparr>) of
                           (Inl e, g3) \<Rightarrow> (Inl e, g3)
                         | (Inr _, g3) \<Rightarrow> try_colors colors rest k neighbor_colors cs g3)))
      else try_colors colors rest k neighbor_colors cs g)"
  by pat_completeness auto
termination
  by (relation "inv_image (less_than <*lex*> less_than)
        (\<lambda>x. case x of
           Inl (colors, ids, g) \<Rightarrow> (length ids, length colors + 1)
         | Inr (colors, rest, k, nc, cs, g) \<Rightarrow> (length rest + 1, length cs))") auto

text \<open>
  The result of \<open>backtracking_exact\<close> is either the statistics dict or the dict
  \<open>{'error': ...}\<close>.
\<close>

datatype report = Stats stats | ErrorDict string

definition backtracking_exact :: "rat \<Rightarrow> int option \<Rightarrow> graph \<Rightarrow> (error + report) \<times> graph" where
  "backtracking_exact elapsed max_colors g =
     (let g0 = reset_colors g;
          mc = (case max_colors of None \<Rightarrow> int (length (nodes g0)) | Some m \<Rightarrow> m);
          node_ids = map fst (nodes g0) in
      case backtrack [0 .. mc - 1] node_ids g0 of
        (Inl e, g1) \<Rightarrow> (Inl e, g1)
      | (Inr success, g1) \<Rightarrow>
          if \<not> success then (Inr (ErrorDict ''No solution found with given color limit''), g1)
          else (case compute_stats ''Backtracking-Exact'' elapsed g1 of
                  Inl e \<Rightarrow> (Inl e, g1)
                | Inr st \<Rightarrow> (Inr (Stats st), g1)))"

section \<open>Specification vocabulary\<close>

text \<open>
  The graphs a caller can build: any sequence of \<open>add_node\<close> and \<open>add_edge\<close> calls on a
  fresh \<open>Graph()\<close>. A call that raises leaves the graph it returns with the exception, and
  the caller goes on with that graph.
\<close>

datatype op = AddNode int "rat \<times> rat" | AddEdge int int

fun apply_op :: "op \<Rightarrow> graph \<Rightarrow> graph" where
  "apply_op (AddNode k pos) g = add_node g k pos"
| "apply_op (AddEdge u v) g = snd (add_edge g u v)"

definition build :: "op list \<Rightarrow> graph" where
  "build ops = fold apply_op ops empty_graph"

text \<open>The neighbour set of \<open>u\<close> as the adjacency index gives it, a missing key read as empty.\<close>

definition adj :: "graph \<Rightarrow> int \<Rightarrow> int fset" where
  "adj g u = (case map_of (adjacency g) u of None \<Rightarrow> {||} | Some s \<Rightarrow> s)"

text \<open>
  The consistency of the three representations (edge list, adjacency index, per-node
  degree and neighbour set), and of the two dicts as dicts.
\<close>

definition nodes_ok :: "graph \<Rightarrow> bool" where
  "nodes_ok g \<longleftrightarrow>
     (\<forall>(k, n) \<in> set (nodes g).
        node_id n = k \<and> neighbors n = adj g k \<and> degree n = int (fcard (adj g k)))"

definition adjacency_ok :: "graph \<Rightarrow> bool" where
  "adjacency_ok g \<longleftrightarrow>
     (\<forall>(u, s) \<in> set (adjacency g). \<forall>v |\<in>| s.
        v \<noteq> u \<and> v \<in> fst ` set (nodes g) \<and> u |\<in>| adj g v \<and>
        ((u, v) \<in> set (edges g) \<or> (v, u) \<in> set (edges g)))"

definition edges_ok :: "graph \<Rightarrow> bool" where
  "edges_ok g \<longleftrightarrow>
     distinct (edges g) \<and>
     (\<forall>(u, v) \<in> set (edges g). v |\<in>| adj g u \<and> (v, u) \<notin> set (edges g))"

definition graph_inv :: "graph \<Rightarrow> bool" where
  "graph_inv g \<longleftrightarrow>
     distinct (map fst (nodes g)) \<and> distinct (map fst (adjacency g)) \<and>
     nodes_ok g \<and> adjacency_ok g \<and> edges_ok g"

text \<open>The complete graph as the test fixture builds it.\<close>

definition complete_graph_ops :: "nat \<Rightarrow> op list" where
  "complete_graph_ops n =
     map (\<lambda>i. AddNode (int i) (0, 0)) [0 ..< n] @
     concat (map (\<lambda>i. map (\<lambda>j. AddEdge (int i) (int j)) [Suc i ..< n]) [0 ..< n])"

definition complete_graph :: "nat \<Rightarrow> graph" where
  "complete_graph n = build (complete_graph_ops n)"

text \<open>
  The colours seen from a node: those of its coloured neighbours. The two graph updates
  the algorithms perform: the defaultdict read of \<open>adjacency[k]\<close>, and a write to the colour
  of the node stored under \<open>k\<close>.
\<close>

definition nbr_colors :: "graph \<Rightarrow> int \<Rightarrow> int fset" where
  "nbr_colors g k = (\<lambda>n. the (node_color g n)) |`| ffilter (\<lambda>n. node_color g n \<noteq> None) (adj g k)"

definition touch :: "graph \<Rightarrow> int \<Rightarrow> graph" where
  "touch g k = g\<lparr>adjacency := snd (dd_get (adjacency g) k)\<rparr>"

definition with_color :: "graph \<Rightarrow> int \<Rightarrow> int option \<Rightarrow> graph" where
  "with_color g k c = g\<lparr>nodes := AList.map_entry k (\<lambda>n. n\<lparr>color := c\<rparr>) (nodes g)\<rparr>"

definition with_saturation :: "graph \<Rightarrow> int \<Rightarrow> int \<Rightarrow> graph" where
  "with_saturation g k s = g\<lparr>nodes := AList.map_entry k (\<lambda>n. n\<lparr>saturation := s\<rparr>) (nodes g)\<rparr>"

definition degree_of :: "graph \<Rightarrow> int \<Rightarrow> int option" where
  "degree_of g k = map_option degree (map_of (nodes g) k)"

definition saturation_of :: "graph \<Rightarrow> int \<Rightarrow> int option" where
  "saturation_of g k = map_option saturation (map_of (nodes g) k)"

text \<open>Two graphs with the same nodes, edges, neighbour sets and degrees.\<close>

definition same_struct :: "graph \<Rightarrow> graph \<Rightarrow> bool" where
  "same_struct g g' \<longleftrightarrow>
     map fst (nodes g') = map fst (nodes g) \<and> edges g' = edges g \<and> adj g' = adj g \<and>
     degree_of g' = degree_of g"

text \<open>
  A partial colouring is proper when no two adjacent coloured nodes share a colour, and
  degree-bounded when every colour lies between 0 and the degree of its node.
\<close>

definition proper :: "graph \<Rightarrow> bool" where
  "proper g \<longleftrightarrow> (\<forall>u v c. v |\<in>| adj g u \<longrightarrow> node_color g u = Some c \<longrightarrow> node_color g v \<noteq> Some c)"

definition bounded :: "graph \<Rightarrow> bool" where
  "bounded g \<longleftrightarrow>
     (\<forall>k n c. map_of (nodes g) k = Some n \<longrightarrow> color n = Some c \<longrightarrow> 0 \<le> c \<and> c \<le> degree n)"

definition col_inv :: "graph \<Rightarrow> bool" where
  "col_inv g \<longleftrightarrow> graph_inv g \<and> proper g \<and> bounded g"

text \<open>
  What a finished heuristic run leaves: the structure of the input graph, every node
  coloured, the colouring proper and degree-bounded.
\<close>

definition good_coloring :: "graph \<Rightarrow> graph \<Rightarrow> bool" where
  "good_coloring g g' \<longleftrightarrow>
     col_inv g' \<and> same_struct g g' \<and>
     (\<forall>k. map_of (nodes g') k \<noteq> None \<longrightarrow> node_color g' k \<noteq> None)"

text \<open>An edge whose two endpoints are coloured alike.\<close>

definition conflict :: "graph \<Rightarrow> int \<times> int \<Rightarrow> bool" where
  "conflict g e \<longleftrightarrow> node_color g (fst e) \<noteq> None \<and> node_color g (fst e) = node_color g (snd e)"

text \<open>
  The loop invariant of DSATUR, for the input graph \<open>g0\<close>, the set \<open>uncolored\<close> and the
  current graph: the nodes outside \<open>uncolored\<close> are coloured, those inside are not, and
  the \<open>saturation\<close> field of every uncoloured node is the number of distinct colours
  among its neighbours.
\<close>

definition dsatur_inv :: "graph \<Rightarrow> int fset \<Rightarrow> graph \<Rightarrow> bool" where
  "dsatur_inv g0 uncolored g \<longleftrightarrow>
     col_inv g \<and> same_struct g0 g \<and>
     (\<forall>k. k |\<in>| uncolored \<longrightarrow> map_of (nodes g) k \<noteq> None \<and> node_color g k = None \<and>
        saturation_of g k = Some (int (fcard (nbr_colors g k)))) \<and>
     (\<forall>k. map_of (nodes g) k \<noteq> None \<longrightarrow> k |\<notin>| uncolored \<longrightarrow> node_color g k \<noteq> None)"

text \<open>
  The states \<open>(uncolored, graph)\<close> at which the \<open>while\<close> test of \<open>dsatur\<close> is evaluated
  during a run on \<open>g\<close>.
\<close>

inductive_set dsatur_states :: "(int \<Rightarrow> nat) \<Rightarrow> graph \<Rightarrow> (int fset \<times> graph) set"
  for rank :: "int \<Rightarrow> nat" and g :: graph where
  seed: "dsatur_seed rank (fset_of_list (map fst (nodes (reset_colors g)))) (reset_colors g)
           = (Inr uncolored, g1) \<Longrightarrow> (uncolored, g1) \<in> dsatur_states rank g"
| step: "(uncolored, g1) \<in> dsatur_states rank g \<Longrightarrow> uncolored \<noteq> {||} \<Longrightarrow>
         dsatur_step rank uncolored g1 = (Inr uncolored', g2) \<Longrightarrow>
         (uncolored', g2) \<in> dsatur_states rank g"

text \<open>
  The contract of \<open>backtrack\<close> on the node ids still to colour: they are distinct,
  present and uncoloured, and the colouring so far is proper. On success the ids are
  coloured and the colouring is still proper; on failure every colour is as it was.
  \<open>roomy\<close> says that the colour budget exceeds the degree of each id.
\<close>

definition bt_pre :: "graph \<Rightarrow> int list \<Rightarrow> bool" where
  "bt_pre g ids \<longleftrightarrow>
     graph_inv g \<and> proper g \<and> distinct ids \<and>
     (\<forall>k \<in> set ids. map_of (nodes g) k \<noteq> None \<and> node_color g k = None)"

definition bt_post :: "graph \<Rightarrow> int list \<Rightarrow> bool \<Rightarrow> graph \<Rightarrow> bool" where
  "bt_post g ids ok g' \<longleftrightarrow>
     graph_inv g' \<and> same_struct g g' \<and>
     (ok \<longrightarrow> proper g' \<and> (\<forall>k \<in> set ids. node_color g' k \<noteq> None) \<and>
        (\<forall>k. k \<notin> set ids \<longrightarrow> node_color g' k = node_color g k)) \<and>
     (\<not> ok \<longrightarrow> node_color g' = node_color g)"

definition roomy :: "int list \<Rightarrow> graph \<Rightarrow> int list \<Rightarrow> bool" where
  "roomy colors g ids \<longleftrightarrow> (\<forall>k \<in> set ids. fcard (adj g k) < card (set colors))"

text \<open>Whether a result of \<open>backtracking_exact\<close> is the statistics dict.\<close>

definition succeeded :: "report \<Rightarrow> bool" where
  "succeeded r = (case r of Stats st \<Rightarrow> True | ErrorDict msg \<Rightarrow> False)"

text \<open>The triangle, used as a concrete input.\<close>

definition triangle :: graph where
  "triangle = build [AddNode 0 (0, 0), AddNode 1 (0, 0), AddNode 2 (0, 0),
     AddEdge 0 1, AddEdge 1 2, AddEdge 0 2]"

definition hash_rank :: "int \<Rightarrow> nat" where
  "hash_rank i = nat (i mod 8)"

text \<open>
  A caller's assignment \<open>graph.nodes[k].color = c\<close> before a run, and three concrete
  inputs: one node pre-assigned colour 5, the path 0-1-2, and the path 0-1 whose node 1
  the caller has coloured 3.
\<close>

definition pre_assign :: "graph \<Rightarrow> int \<Rightarrow> int option \<Rightarrow> graph" where
  "pre_assign g k c = snd (update_node g k (\<lambda>n. n\<lparr>color := c\<rparr>))"

definition one_node_colored_5 :: graph where
  "one_node_colored_5 = pre_assign (build [AddNode 0 (0, 0)]) 0 (Some 5)"

definition path3 :: graph where
  "path3 = build [AddNode 0 (0, 0), AddNode 1 (0, 0), AddNode 2 (0, 0), AddEdge 0 1, AddEdge 1 2]"

definition path2_colored :: graph where
  "path2_colored = pre_assign (build [AddNode 0 (0, 0), AddNode 1 (0, 0), AddEdge 0 1]) 1 (Some 3)"

text \<open>
  Three nodes without an edge. CPython iterates the set of their ids in the order
  9, 10, 3 (hash slots 1, 2, 3), which is also their order by \<open>hash_rank\<close>.
\<close>

definition isolated_3_9_10 :: graph where
  "isolated_3_9_10 = build [AddNode 3 (0, 0), AddNode 9 (0, 0), AddNode 10 (0, 0)]"

definition max_degree :: "graph \<Rightarrow> int" where
  "max_degree g = fold (\<lambda>(k, n) m. max (degree n) m) (nodes g) 0"

section \<open>Association lists and the defaultdict\<close>

lemma map_fst_map_entry [simp]: "map fst (AList.map_entry k f xs) = map fst xs"
  by (induction xs) auto

lemma map_of_map_entry_eq:
  "map_of (AList.map_entry k f xs) x = (if x = k then map_option f (map_of xs k) else map_of xs x)"
  by (induction xs) auto

lemma map_of_distinct_iff:
  "distinct (map fst xs) \<Longrightarrow> (k, v) \<in> set xs \<longleftrightarrow> map_of xs k = Some v"
  by simp

lemma map_of_None_iff: "map_of xs k = None \<longleftrightarrow> k \<notin> fst ` set xs"
  by (simp add: map_of_eq_None_iff)

lemma dd_get_fst: "fst (dd_get d k) = (case map_of d k of None \<Rightarrow> {||} | Some s \<Rightarrow> s)"
  by (simp add: dd_get_def split: option.splits)

lemma map_of_dd_get:
  "map_of (snd (dd_get d k)) x = (if x = k \<and> map_of d k = None then Some {||} else map_of d x)"
  by (auto simp: dd_get_def map_add_def split: option.splits)

lemma distinct_dd_get:
  "distinct (map fst d) \<Longrightarrow> distinct (map fst (snd (dd_get d k)))"
  by (auto simp: dd_get_def map_of_None_iff split: option.splits)

lemma map_of_dd_add:
  "map_of (dd_add d k x) y =
     (if y = k then Some (finsert x (case map_of d k of None \<Rightarrow> {||} | Some s \<Rightarrow> s)) else map_of d y)"
  by (auto simp: dd_add_def dd_get_def update_conv' map_add_def split: option.splits prod.splits)

lemma distinct_dd_add:
  "distinct (map fst d) \<Longrightarrow> distinct (map fst (dd_add d k x))"
  by (auto simp: dd_add_def dd_get_def distinct_update map_of_None_iff split: option.splits prod.splits)


section \<open>The graph invariant\<close>

lemma adj_mem_iff: "v |\<in>| adj g u \<longleftrightarrow> (\<exists>s. map_of (adjacency g) u = Some s \<and> v |\<in>| s)"
  by (auto simp: adj_def split: option.splits)

lemma ball_pair_iff: "(\<forall>(a, b) \<in> set xs. P a b) \<longleftrightarrow> (\<forall>a b. (a, b) \<in> set xs \<longrightarrow> P a b)"
  by auto

lemma ball_pairD: "\<forall>(a, b) \<in> A. P a b \<Longrightarrow> (a, b) \<in> A \<Longrightarrow> P a b"
  by auto

lemma fst_image_map_of_iff: "v \<in> fst ` set xs \<longleftrightarrow> map_of xs v \<noteq> None"
  by (simp add: map_of_None_iff)

lemma nodes_ok_iff:
  assumes "distinct (map fst (nodes g))"
  shows "nodes_ok g \<longleftrightarrow>
     (\<forall>k n. map_of (nodes g) k = Some n \<longrightarrow>
        node_id n = k \<and> neighbors n = adj g k \<and> degree n = int (fcard (adj g k)))"
proof -
  have n: "\<And>k n. (k, n) \<in> set (nodes g) \<longleftrightarrow> map_of (nodes g) k = Some n"
    using assms by simp
  show ?thesis
    unfolding nodes_ok_def ball_pair_iff n ..
qed

lemma adjacency_ok_iff:
  assumes "distinct (map fst (adjacency g))"
  shows "adjacency_ok g \<longleftrightarrow>
     (\<forall>u v. v |\<in>| adj g u \<longrightarrow>
        v \<noteq> u \<and> map_of (nodes g) v \<noteq> None \<and> u |\<in>| adj g v \<and>
        ((u, v) \<in> set (edges g) \<or> (v, u) \<in> set (edges g)))"
proof -
  have a: "\<And>u s. (u, s) \<in> set (adjacency g) \<longleftrightarrow> map_of (adjacency g) u = Some s"
    using assms by simp
  have "adjacency_ok g \<longleftrightarrow> (\<forall>u s v. map_of (adjacency g) u = Some s \<longrightarrow> v |\<in>| s \<longrightarrow>
        v \<noteq> u \<and> map_of (nodes g) v \<noteq> None \<and> u |\<in>| adj g v \<and>
        ((u, v) \<in> set (edges g) \<or> (v, u) \<in> set (edges g)))"
    unfolding adjacency_ok_def ball_pair_iff a fst_image_map_of_iff by blast
  also have "\<dots> \<longleftrightarrow> (\<forall>u v. v |\<in>| adj g u \<longrightarrow>
        v \<noteq> u \<and> map_of (nodes g) v \<noteq> None \<and> u |\<in>| adj g v \<and>
        ((u, v) \<in> set (edges g) \<or> (v, u) \<in> set (edges g)))"
    unfolding adj_mem_iff [of _ g] by blast
  finally show ?thesis .
qed

lemma edges_ok_iff:
  "edges_ok g \<longleftrightarrow> distinct (edges g) \<and>
     (\<forall>u v. (u, v) \<in> set (edges g) \<longrightarrow> v |\<in>| adj g u \<and> (v, u) \<notin> set (edges g))"
  unfolding edges_ok_def ball_pair_iff ..


lemma graph_inv_alt:
  "graph_inv g \<longleftrightarrow>
     distinct (map fst (nodes g)) \<and> distinct (map fst (adjacency g)) \<and>
     (\<forall>k n. map_of (nodes g) k = Some n \<longrightarrow>
        node_id n = k \<and> neighbors n = adj g k \<and> degree n = int (fcard (adj g k))) \<and>
     (\<forall>u v. v |\<in>| adj g u \<longrightarrow>
        v \<noteq> u \<and> map_of (nodes g) v \<noteq> None \<and> u |\<in>| adj g v \<and>
        ((u, v) \<in> set (edges g) \<or> (v, u) \<in> set (edges g))) \<and>
     distinct (edges g) \<and>
     (\<forall>u v. (u, v) \<in> set (edges g) \<longrightarrow> v |\<in>| adj g u \<and> (v, u) \<notin> set (edges g))"
proof (cases "distinct (map fst (nodes g)) \<and> distinct (map fst (adjacency g))")
  case False
  then show ?thesis
    unfolding graph_inv_def by blast
next
  case True
  then have d1: "distinct (map fst (nodes g))" and d2: "distinct (map fst (adjacency g))"
    by blast+
  show ?thesis
    unfolding graph_inv_def nodes_ok_iff [OF d1] adjacency_ok_iff [OF d2] edges_ok_iff ..
qed

lemma inv_distinct: "graph_inv g \<Longrightarrow> distinct (map fst (nodes g))"
  by (simp add: graph_inv_def)

lemma inv_node:
  "graph_inv g \<Longrightarrow> map_of (nodes g) k = Some n \<Longrightarrow>
     node_id n = k \<and> neighbors n = adj g k \<and> degree n = int (fcard (adj g k))"
  unfolding graph_inv_alt by blast

lemma inv_adj:
  "graph_inv g \<Longrightarrow> v |\<in>| adj g u \<Longrightarrow>
     v \<noteq> u \<and> map_of (nodes g) v \<noteq> None \<and> map_of (nodes g) u \<noteq> None \<and> u |\<in>| adj g v"
  unfolding graph_inv_alt by blast

lemma inv_edge:
  "graph_inv g \<Longrightarrow> (u, v) \<in> set (edges g) \<Longrightarrow>
     v |\<in>| adj g u \<and> u \<noteq> v \<and> map_of (nodes g) u \<noteq> None \<and> map_of (nodes g) v \<noteq> None"
  unfolding graph_inv_alt by blast

lemma graph_inv_empty: "graph_inv empty_graph"
  by (simp add: graph_inv_def nodes_ok_def adjacency_ok_def edges_ok_def empty_graph_def)

lemma adj_absent:
  assumes "graph_inv g" and "map_of (nodes g) k = None"
  shows "adj g k = {||}"
proof (rule ccontr)
  assume "adj g k \<noteq> {||}"
  then obtain v where "v |\<in>| adj g k"
    by blast
  with assms(1) have "k |\<in>| adj g v"
    using inv_adj by blast
  with assms(1) have "map_of (nodes g) k \<noteq> None"
    using inv_adj by blast
  with assms(2) show False
    by simp
qed

lemma graph_inv_add_node:
  assumes "graph_inv g"
  shows "graph_inv (add_node g k pos)"
proof (cases "map_of (nodes g) k = None")
  case False
  then show ?thesis
    using assms by (auto simp: add_node_def)
next
  case True
  let ?g = "g\<lparr>nodes := nodes g @ [(k, new_node k pos)]\<rparr>"
  have e: "adj ?g = adj g" "edges ?g = edges g" "adjacency ?g = adjacency g"
    by (simp_all add: adj_def fun_eq_iff)
  have m: "map_of (nodes ?g) x = (if x = k then Some (new_node k pos) else map_of (nodes g) x)" for x
    using True by (auto simp: map_add_def split: option.splits)
  have k0: "adj g k = {||}"
    using assms True by (rule adj_absent)
  have d: "distinct (map fst (nodes ?g))"
    using assms True by (simp add: graph_inv_def map_of_None_iff)
  have "graph_inv ?g"
    unfolding graph_inv_alt e m
    using assms d k0 unfolding graph_inv_alt
    by (auto simp: new_node_def)
  then show ?thesis
    using True by (simp add: add_node_def)
qed


lemma adj_touch [simp]: "adj (g\<lparr>adjacency := snd (dd_get (adjacency g) k)\<rparr>) = adj g"
  by (auto simp: adj_def fun_eq_iff map_of_dd_get)

lemma graph_inv_touch:
  assumes "graph_inv g"
  shows "graph_inv (g\<lparr>adjacency := snd (dd_get (adjacency g) k)\<rparr>)"
proof -
  have d: "distinct (map fst (snd (dd_get (adjacency g) k)))"
    using assms by (simp add: graph_inv_def distinct_dd_get)
  show ?thesis
    unfolding graph_inv_alt adj_touch
    using assms d unfolding graph_inv_alt by auto
qed

lemma dd_get_adj: "dd_get (adjacency g) u = (adj g u, snd (dd_get (adjacency g) u))"
  by (simp add: dd_get_def adj_def split: option.splits)

lemma add_edge_raise:
  "map_of (nodes g) u = None \<or> map_of (nodes g) v = None \<Longrightarrow> add_edge g u v = (Inl ValueError, g)"
  by (simp add: add_edge_def)

lemma add_edge_self:
  "map_of (nodes g) u \<noteq> None \<Longrightarrow> add_edge g u u = (Inr (), g)"
  by (simp add: add_edge_def)

lemma add_edge_present:
  "map_of (nodes g) u \<noteq> None \<Longrightarrow> map_of (nodes g) v \<noteq> None \<Longrightarrow> u \<noteq> v \<Longrightarrow> v |\<in>| adj g u \<Longrightarrow>
     add_edge g u v = (Inr (), g\<lparr>adjacency := snd (dd_get (adjacency g) u)\<rparr>)"
  by (subst add_edge_def, subst dd_get_adj) auto

lemma add_edge_new:
  "map_of (nodes g) u \<noteq> None \<Longrightarrow> map_of (nodes g) v \<noteq> None \<Longrightarrow> u \<noteq> v \<Longrightarrow> v |\<notin>| adj g u \<Longrightarrow>
     add_edge g u v = (Inr (),
          g\<lparr>edges := edges g @ [(u, v)],
            adjacency := dd_add (dd_add (snd (dd_get (adjacency g) u)) u v) v u,
            nodes :=
              AList.map_entry v (\<lambda>n. n\<lparr>neighbors := finsert u (neighbors n)\<rparr>)
               (AList.map_entry u (\<lambda>n. n\<lparr>neighbors := finsert v (neighbors n)\<rparr>)
                 (AList.map_entry v (\<lambda>n. n\<lparr>degree := degree n + 1\<rparr>)
                   (AList.map_entry u (\<lambda>n. n\<lparr>degree := degree n + 1\<rparr>) (nodes g))))\<rparr>)"
  by (subst add_edge_def, subst dd_get_adj) auto

section \<open>\<open>add_node\<close> and \<open>add_edge\<close> keep the invariant\<close>

lemma graph_inv_add_edge_new:
  assumes inv: "graph_inv g" and uv: "u \<noteq> v"
    and nu: "map_of (nodes g) u \<noteq> None" and nv: "map_of (nodes g) v \<noteq> None"
    and new: "v |\<notin>| adj g u"
  shows "graph_inv (snd (add_edge g u v))"
proof -
  define a where "a = dd_add (dd_add (snd (dd_get (adjacency g) u)) u v) v u"
  define ns where "ns =
     AList.map_entry v (\<lambda>n. n\<lparr>neighbors := finsert u (neighbors n)\<rparr>)
      (AList.map_entry u (\<lambda>n. n\<lparr>neighbors := finsert v (neighbors n)\<rparr>)
        (AList.map_entry v (\<lambda>n. n\<lparr>degree := degree n + 1\<rparr>)
          (AList.map_entry u (\<lambda>n. n\<lparr>degree := degree n + 1\<rparr>) (nodes g))))"
  define g' where "g' = g\<lparr>edges := edges g @ [(u, v)], adjacency := a, nodes := ns\<rparr>"
  have g': "snd (add_edge g u v) = g'"
    using add_edge_new [OF nu nv uv new] by (simp add: g'_def a_def ns_def)
  have new': "u |\<notin>| adj g v"
    using inv new inv_adj by blast
  have e1: "(u, v) \<notin> set (edges g)" and e2: "(v, u) \<notin> set (edges g)"
    using inv new new' inv_edge by blast+
  have adj': "adj g' x = (if x = u then finsert v (adj g u)
      else if x = v then finsert u (adj g v) else adj g x)" for x
    using uv by (auto simp: g'_def a_def adj_def map_of_dd_add map_of_dd_get split: option.splits)
  have nodes': "map_of (nodes g') k =
     (case map_of (nodes g) k of None \<Rightarrow> None
      | Some n \<Rightarrow> Some (if k = u then n\<lparr>degree := degree n + 1, neighbors := finsert v (neighbors n)\<rparr>
          else if k = v then n\<lparr>degree := degree n + 1, neighbors := finsert u (neighbors n)\<rparr>
          else n))" for k
    using uv by (auto simp: g'_def ns_def map_of_map_entry_eq split: option.splits)
  have keys': "map fst (nodes g') = map fst (nodes g)"
    by (simp add: g'_def ns_def)
  have edges': "edges g' = edges g @ [(u, v)]"
    by (simp add: g'_def)
  have d2: "distinct (map fst (adjacency g'))"
    using inv by (simp add: g'_def a_def graph_inv_def distinct_dd_add distinct_dd_get)
  have I: "distinct (map fst (nodes g))" "distinct (edges g)"
    and N: "\<And>k n. map_of (nodes g) k = Some n \<Longrightarrow>
        node_id n = k \<and> neighbors n = adj g k \<and> degree n = int (fcard (adj g k))"
    and A: "\<And>x y. y |\<in>| adj g x \<Longrightarrow>
        y \<noteq> x \<and> map_of (nodes g) y \<noteq> None \<and> x |\<in>| adj g y \<and>
        ((x, y) \<in> set (edges g) \<or> (y, x) \<in> set (edges g))"
    and E: "\<And>x y. (x, y) \<in> set (edges g) \<Longrightarrow> y |\<in>| adj g x \<and> (y, x) \<notin> set (edges g)"
    using inv unfolding graph_inv_alt by blast+
  have c1: "distinct (map fst (nodes g'))"
    using I keys' by simp
  have c3: "node_id n = k \<and> neighbors n = adj g' k \<and> degree n = int (fcard (adj g' k))"
    if "map_of (nodes g') k = Some n" for k n
  proof -
    from that obtain m where m: "map_of (nodes g) k = Some m"
      by (auto simp: nodes' split: option.splits)
    note Nm = N [OF m]
    from that m have n: "n = (if k = u then m\<lparr>degree := degree m + 1, neighbors := finsert v (neighbors m)\<rparr>
          else if k = v then m\<lparr>degree := degree m + 1, neighbors := finsert u (neighbors m)\<rparr>
          else m)"
      by (simp add: nodes')
    show ?thesis
      using Nm new new' uv by (auto simp: n adj' fcard_finsert_disjoint)
  qed
  have c4: "y \<noteq> x \<and> map_of (nodes g') y \<noteq> None \<and> x |\<in>| adj g' y \<and>
        ((x, y) \<in> set (edges g') \<or> (y, x) \<in> set (edges g'))"
    if "y |\<in>| adj g' x" for x y
  proof -
    have old: "y |\<in>| adj g x \<Longrightarrow> ?thesis"
      using A [of y x] by (auto simp: nodes' adj' edges' split: option.splits)
    have "y |\<in>| adj g x \<or> (x = u \<and> y = v) \<or> (x = v \<and> y = u)"
      using that by (auto simp: adj' split: if_splits)
    then show ?thesis
      using old uv nu nv by (auto simp: nodes' adj' edges' split: option.splits)
  qed
  have c5: "distinct (edges g')"
    using I e1 by (simp add: edges')
  have c6: "y |\<in>| adj g' x \<and> (y, x) \<notin> set (edges g')"
    if "(x, y) \<in> set (edges g')" for x y
  proof -
    from that consider "(x, y) \<in> set (edges g)" | "x = u" "y = v"
      by (auto simp: edges')
    then show ?thesis
    proof cases
      case 1
      then show ?thesis
        using E [OF 1] e2 by (auto simp: adj' edges')
    next
      case 2
      then show ?thesis
        using e2 uv by (auto simp: adj' edges')
    qed
  qed
  have "graph_inv g'"
    unfolding graph_inv_alt using c1 d2 c3 c4 c5 c6 by blast
  then show ?thesis
    by (simp add: g')
qed

lemma graph_inv_add_edge:
  assumes "graph_inv g"
  shows "graph_inv (snd (add_edge g u v))"
proof -
  consider "map_of (nodes g) u = None \<or> map_of (nodes g) v = None"
    | "map_of (nodes g) u \<noteq> None" "map_of (nodes g) v \<noteq> None" "u = v"
    | "map_of (nodes g) u \<noteq> None" "map_of (nodes g) v \<noteq> None" "u \<noteq> v" "v |\<in>| adj g u"
    | "map_of (nodes g) u \<noteq> None" "map_of (nodes g) v \<noteq> None" "u \<noteq> v" "v |\<notin>| adj g u"
    by blast
  then show ?thesis
  proof cases
    case 1
    then show ?thesis
      using assms add_edge_raise [of g u v] by simp
  next
    case 2
    then show ?thesis
      using assms add_edge_self [of g u] by simp
  next
    case 3
    then show ?thesis
      using assms add_edge_present [of g u v] graph_inv_touch [of g u] by simp
  next
    case 4
    then show ?thesis
      using assms graph_inv_add_edge_new [of g u v] by blast
  qed
qed

lemma graph_inv_apply_op: "graph_inv g \<Longrightarrow> graph_inv (apply_op op g)"
  by (cases op) (simp_all add: graph_inv_add_node graph_inv_add_edge)

lemma graph_inv_fold: "graph_inv g \<Longrightarrow> graph_inv (fold apply_op ops g)"
  by (induction ops arbitrary: g) (simp_all add: graph_inv_apply_op)

lemma graph_inv_build: "graph_inv (build ops)"
  unfolding build_def by (rule graph_inv_fold [OF graph_inv_empty])

section \<open>Claims about the graph operations\<close>

text \<open>
  Claim C3. \<open>add_edge(u, v)\<close> raises exactly when \<open>u\<close> or \<open>v\<close> is not a key of \<open>nodes\<close>,
  and a call that raises leaves the whole graph (edge list, adjacency index, every node
  with its neighbour set and degree) as it was: no node is created and nothing is
  half-written.
\<close>

theorem add_edge_raises_iff_absent:
  "((\<exists>e. fst (add_edge g u v) = Inl e) \<longleftrightarrow>
      (u \<notin> fst ` set (nodes g) \<or> v \<notin> fst ` set (nodes g))) \<and>
   ((\<exists>e. fst (add_edge g u v) = Inl e) \<longrightarrow> snd (add_edge g u v) = g)"
proof -
  have r: "(\<exists>e. fst (add_edge g u v) = Inl e) \<longleftrightarrow>
      (map_of (nodes g) u = None \<or> map_of (nodes g) v = None)"
    by (auto simp: add_edge_def split: prod.splits)
  have "map_of (nodes g) u = None \<or> map_of (nodes g) v = None \<Longrightarrow> snd (add_edge g u v) = g"
    using add_edge_raise [of g u v] by simp
  with r show ?thesis
    by (auto simp: map_of_None_iff)
qed

theorem add_edge_raises_iff_absent_witness:
  "(\<exists>e. fst (add_edge (build [AddNode 0 (0, 0), AddNode 1 (0, 0), AddEdge 0 1]) 0 7) = Inl e) \<and>
   snd (add_edge (build [AddNode 0 (0, 0), AddNode 1 (0, 0), AddEdge 0 1]) 0 7)
     = build [AddNode 0 (0, 0), AddNode 1 (0, 0), AddEdge 0 1] \<and>
   edges (build [AddNode 0 (0, 0), AddNode 1 (0, 0), AddEdge 0 1]) = [(0, 1)]"
proof -
  have "(7 :: int) \<notin> fst ` set (nodes (build [AddNode 0 (0, 0), AddNode 1 (0, 0), AddEdge 0 1]))"
    by code_simp
  moreover have "edges (build [AddNode 0 (0, 0), AddNode 1 (0, 0), AddEdge 0 1]) = [(0, 1)]"
    by code_simp
  ultimately show ?thesis
    using add_edge_raises_iff_absent
      [of "build [AddNode 0 (0, 0), AddNode 1 (0, 0), AddEdge 0 1]" 0 7]
    by blast
qed

text \<open>
  Claim C6. Starting from a consistent graph (a fresh \<open>Graph()\<close> is one), every sequence
  of \<open>add_node\<close> and \<open>add_edge\<close> calls gives a graph in which adjacency is symmetric, no
  self-loop is stored, no pair is stored twice in \<open>edges\<close> in either order, and the
  degree of every node is the size of its adjacency set and of its neighbour set.
\<close>

theorem operations_preserve_invariants:
  assumes "graph_inv g0" and "g = fold apply_op ops g0"
  shows "(\<forall>u v. v |\<in>| adj g u \<longleftrightarrow> u |\<in>| adj g v) \<and>
         (\<forall>u. (u, u) \<notin> set (edges g)) \<and>
         distinct (edges g) \<and>
         (\<forall>u v. (u, v) \<in> set (edges g) \<longrightarrow> (v, u) \<notin> set (edges g)) \<and>
         (\<forall>(k, n) \<in> set (nodes g).
            degree n = int (fcard (adj g k)) \<and> degree n = int (fcard (neighbors n)))"
proof -
  have inv: "graph_inv g"
    using assms by (simp add: graph_inv_fold)
  have 1: "\<forall>u v. v |\<in>| adj g u \<longleftrightarrow> u |\<in>| adj g v"
    using inv inv_adj by blast
  have 2: "\<forall>u. (u, u) \<notin> set (edges g)"
    using inv inv_edge by blast
  have 3: "distinct (edges g)"
    and 4: "\<forall>u v. (u, v) \<in> set (edges g) \<longrightarrow> (v, u) \<notin> set (edges g)"
    using inv unfolding graph_inv_alt by blast+
  have 5: "degree n = int (fcard (adj g k)) \<and> degree n = int (fcard (neighbors n))"
    if "(k, n) \<in> set (nodes g)" for k n
  proof -
    from that inv have "map_of (nodes g) k = Some n"
      by (simp add: graph_inv_def)
    with inv show ?thesis
      using inv_node by metis
  qed
  from 1 2 3 4 5 show ?thesis
    by blast
qed

theorem operations_preserve_invariants_witness:
  "graph_inv empty_graph \<and>
   edges (fold apply_op [AddNode 0 (0, 0), AddNode 1 (0, 0), AddEdge 0 1, AddEdge 1 0,
      AddEdge 0 0, AddEdge 0 1] empty_graph) = [(0, 1)] \<and>
   map (\<lambda>(k, n). (k, degree n, neighbors n)) (nodes (fold apply_op [AddNode 0 (0, 0),
      AddNode 1 (0, 0), AddEdge 0 1, AddEdge 1 0, AddEdge 0 0, AddEdge 0 1] empty_graph))
     = [(0, 1, {|1|}), (1, 1, {|0|})] \<and>
   (\<forall>u v. v |\<in>| adj (fold apply_op [AddNode 0 (0, 0), AddNode 1 (0, 0), AddEdge 0 1,
        AddEdge 1 0, AddEdge 0 0, AddEdge 0 1] empty_graph) u
      \<longleftrightarrow> u |\<in>| adj (fold apply_op [AddNode 0 (0, 0), AddNode 1 (0, 0), AddEdge 0 1,
        AddEdge 1 0, AddEdge 0 0, AddEdge 0 1] empty_graph) v)"
proof -
  have "edges (fold apply_op [AddNode 0 (0, 0), AddNode 1 (0, 0), AddEdge 0 1, AddEdge 1 0,
      AddEdge 0 0, AddEdge 0 1] empty_graph) = [(0, 1)]"
    by code_simp
  moreover have "map (\<lambda>(k, n). (k, degree n, neighbors n)) (nodes (fold apply_op
      [AddNode 0 (0, 0), AddNode 1 (0, 0), AddEdge 0 1, AddEdge 1 0, AddEdge 0 0, AddEdge 0 1]
      empty_graph)) = [(0, 1, {|1|}), (1, 1, {|0|})]"
    by code_simp
  ultimately show ?thesis
    using operations_preserve_invariants [OF graph_inv_empty refl,
      of "[AddNode 0 (0, 0), AddNode 1 (0, 0), AddEdge 0 1, AddEdge 1 0, AddEdge 0 0, AddEdge 0 1]"]
      graph_inv_empty
    by blast
qed

section \<open>First fit\<close>

lemma first_free_from_notin: "first_free_from S c |\<notin>| S"
  by (induction S c rule: first_free_from.induct) (subst first_free_from.simps, simp)

lemma first_free_from_ge: "c \<le> first_free_from S c"
proof (induction S c rule: first_free_from.induct)
  case (1 S c)
  show ?case
  proof (cases "c |\<in>| S")
    case True
    then have "first_free_from S c = first_free_from S (c + 1)"
      by (subst first_free_from.simps) simp
    with 1 True show ?thesis
      by fastforce
  next
    case False
    then show ?thesis
      by (subst first_free_from.simps) simp
  qed
qed

lemma first_free_from_below: "c \<le> x \<Longrightarrow> x < first_free_from S c \<Longrightarrow> x |\<in>| S"
proof (induction S c rule: first_free_from.induct)
  case (1 S c)
  show ?case
  proof (cases "c |\<in>| S")
    case True
    then have "first_free_from S c = first_free_from S (c + 1)"
      by (subst first_free_from.simps) simp
    with 1 True show ?thesis
      by (cases "x = c") auto
  next
    case False
    then have "first_free_from S c = c"
      by (subst first_free_from.simps) simp
    with 1 show ?thesis
      by simp
  qed
qed

lemma first_free_from_bound: "first_free_from S c \<le> c + int (fcard S)"
proof -
  have "{c ..< first_free_from S c} \<subseteq> fset S"
    using first_free_from_below by auto
  then have "card {c ..< first_free_from S c} \<le> card (fset S)"
    by (intro card_mono) auto
  then show ?thesis
    by (simp add: fcard.rep_eq)
qed

lemma smallest_available_notin: "get_smallest_available_color S |\<notin>| S"
  by (simp add: get_smallest_available_color_def first_free_from_notin)

lemma smallest_available_range:
  "0 \<le> get_smallest_available_color S \<and> get_smallest_available_color S \<le> int (fcard S)"
  using first_free_from_ge [of 0 S] first_free_from_bound [of S 0]
  by (simp add: get_smallest_available_color_def)

lemma smallest_available_least: "0 \<le> x \<Longrightarrow> x < get_smallest_available_color S \<Longrightarrow> x |\<in>| S"
  by (simp add: get_smallest_available_color_def first_free_from_below)

section \<open>The two graph updates of the algorithms\<close>

lemma graph_inv_node_fields:
  assumes inv: "graph_inv g"
    and k: "map fst (nodes g') = map fst (nodes g)"
    and a: "adjacency g' = adjacency g" and e: "edges g' = edges g"
    and n: "\<And>k n'. map_of (nodes g') k = Some n' \<Longrightarrow>
       \<exists>n. map_of (nodes g) k = Some n \<and> node_id n' = node_id n \<and>
           neighbors n' = neighbors n \<and> degree n' = degree n"
  shows "graph_inv g'"
proof -
  have adj: "adj g' = adj g"
    by (simp add: adj_def a fun_eq_iff)
  have dom: "map_of (nodes g') x \<noteq> None \<longleftrightarrow> map_of (nodes g) x \<noteq> None" for x
    using k by (metis map_of_eq_None_iff set_map)
  have c3: "node_id n' = x \<and> neighbors n' = adj g x \<and> degree n' = int (fcard (adj g x))"
    if "map_of (nodes g') x = Some n'" for x n'
  proof -
    from n [OF that] obtain m where m: "map_of (nodes g) x = Some m"
      and eq: "node_id n' = node_id m" "neighbors n' = neighbors m" "degree n' = degree m"
      by blast
    from inv_node [OF inv m] eq show ?thesis
      by simp
  qed
  have c4: "y \<noteq> x \<and> map_of (nodes g') y \<noteq> None \<and> x |\<in>| adj g y \<and>
        ((x, y) \<in> set (edges g) \<or> (y, x) \<in> set (edges g))"
    if "y |\<in>| adj g x" for x y
  proof -
    from inv that have "y \<noteq> x \<and> map_of (nodes g) y \<noteq> None \<and> x |\<in>| adj g y \<and>
        ((x, y) \<in> set (edges g) \<or> (y, x) \<in> set (edges g))"
      unfolding graph_inv_alt by blast
    then show ?thesis
      unfolding dom .
  qed
  have rest: "distinct (map fst (nodes g))" "distinct (map fst (adjacency g))"
    "distinct (edges g)"
    "\<forall>u v. (u, v) \<in> set (edges g) \<longrightarrow> v |\<in>| adj g u \<and> (v, u) \<notin> set (edges g)"
    using inv unfolding graph_inv_alt by blast+
  show ?thesis
    unfolding graph_inv_alt adj k a e
    using rest c3 c4 by blast
qed

lemma touch_simps [simp]:
  "nodes (touch g k) = nodes g" "edges (touch g k) = edges g" "adj (touch g k) = adj g"
  "node_color (touch g k) = node_color g" "degree_of (touch g k) = degree_of g"
  "saturation_of (touch g k) = saturation_of g"
  by (simp_all add: touch_def node_color_def degree_of_def saturation_of_def fun_eq_iff)

lemma nbr_colors_touch [simp]: "nbr_colors (touch g k) = nbr_colors g"
  by (simp add: nbr_colors_def fun_eq_iff)

lemma graph_inv_touch' [simp]: "graph_inv g \<Longrightarrow> graph_inv (touch g k)"
  by (simp add: touch_def graph_inv_touch)

lemma nbr_colors_iff: "c |\<in>| nbr_colors g k \<longleftrightarrow> (\<exists>v. v |\<in>| adj g k \<and> node_color g v = Some c)"
  by (force simp: nbr_colors_def)

lemma fcard_nbr_colors: "fcard (nbr_colors g k) \<le> fcard (adj g k)"
proof -
  have "fcard (nbr_colors g k) \<le> fcard (ffilter (\<lambda>n. node_color g n \<noteq> None) (adj g k))"
    unfolding nbr_colors_def by (simp add: fcard.rep_eq card_image_le)
  also have "\<dots> \<le> fcard (adj g k)"
    by (rule fcard_mono) auto
  finally show ?thesis .
qed

lemma get_neighbor_colors_inv:
  assumes "graph_inv g"
  shows "get_neighbor_colors g k = (Inr (nbr_colors g k), touch g k)"
proof -
  have "fBall (adj g k) (\<lambda>n. map_of (nodes g) n \<noteq> None)"
    using assms inv_adj by blast
  then show ?thesis
    by (subst get_neighbor_colors_def, subst dd_get_adj) (simp add: nbr_colors_def touch_def)
qed

lemma with_color_simps [simp]:
  "map fst (nodes (with_color g k c)) = map fst (nodes g)"
  "edges (with_color g k c) = edges g" "adjacency (with_color g k c) = adjacency g"
  "adj (with_color g k c) = adj g" "degree_of (with_color g k c) = degree_of g"
  "saturation_of (with_color g k c) = saturation_of g"
  by (auto simp: with_color_def adj_def degree_of_def saturation_of_def fun_eq_iff
      map_of_map_entry_eq option.map_comp comp_def)

lemma map_of_with_color:
  "map_of (nodes (with_color g k c)) x =
     (if x = k then map_option (\<lambda>n. n\<lparr>color := c\<rparr>) (map_of (nodes g) k) else map_of (nodes g) x)"
  by (simp add: with_color_def map_of_map_entry_eq)

lemma node_color_with_color:
  "node_color (with_color g k c) x =
     (if x = k \<and> map_of (nodes g) k \<noteq> None then c else node_color g x)"
  by (auto simp: node_color_def map_of_with_color split: option.splits)

lemma graph_inv_with_color [simp]:
  assumes "graph_inv g"
  shows "graph_inv (with_color g k c)"
  by (rule graph_inv_node_fields [OF assms]) (auto simp: map_of_with_color split: if_splits)

lemma with_saturation_simps [simp]:
  "map fst (nodes (with_saturation g k s)) = map fst (nodes g)"
  "edges (with_saturation g k s) = edges g" "adjacency (with_saturation g k s) = adjacency g"
  "adj (with_saturation g k s) = adj g" "degree_of (with_saturation g k s) = degree_of g"
  "node_color (with_saturation g k s) = node_color g"
  by (auto simp: with_saturation_def adj_def degree_of_def node_color_def fun_eq_iff
      map_of_map_entry_eq option.map_comp comp_def split: option.splits)

lemma map_of_with_saturation:
  "map_of (nodes (with_saturation g k s)) x =
     (if x = k then map_option (\<lambda>n. n\<lparr>saturation := s\<rparr>) (map_of (nodes g) k)
      else map_of (nodes g) x)"
  by (simp add: with_saturation_def map_of_map_entry_eq)

lemma graph_inv_with_saturation [simp]:
  assumes "graph_inv g"
  shows "graph_inv (with_saturation g k s)"
  by (rule graph_inv_node_fields [OF assms]) (auto simp: map_of_with_saturation split: if_splits)

lemma nbr_colors_with_saturation [simp]: "nbr_colors (with_saturation g k s) = nbr_colors g"
  by (simp add: nbr_colors_def fun_eq_iff)

lemma update_node_color:
  "map_of (nodes g) k \<noteq> None \<Longrightarrow>
     update_node g k (\<lambda>n. n\<lparr>color := c\<rparr>) = (Inr (), with_color g k c)"
  by (auto simp: update_node_def with_color_def)

lemma update_node_saturation:
  "map_of (nodes g) k = Some n \<Longrightarrow>
     update_node g k (\<lambda>n. n\<lparr>saturation := f (saturation n)\<rparr>)
       = (Inr (), with_saturation g k (f (saturation n)))"
proof -
  assume a: "map_of (nodes g) k = Some n"
  have "AList.map_entry k (\<lambda>n. n\<lparr>saturation := f (saturation n)\<rparr>) xs
      = AList.map_entry k (\<lambda>m. m\<lparr>saturation := f (saturation n)\<rparr>) xs"
    if "map_of xs k = Some n" for xs
    using that by (induction xs) (auto split: if_splits)
  with a show ?thesis
    by (simp add: update_node_def with_saturation_def)
qed

section \<open>One first-fit assignment\<close>

lemma same_struct_refl [simp]: "same_struct g g"
  by (simp add: same_struct_def)

lemma same_struct_trans: "same_struct g g1 \<Longrightarrow> same_struct g1 g2 \<Longrightarrow> same_struct g g2"
  by (simp add: same_struct_def)

lemma same_struct_keys: "same_struct g g' \<Longrightarrow> map_of (nodes g') k \<noteq> None \<longleftrightarrow> map_of (nodes g) k \<noteq> None"
  by (metis same_struct_def map_of_eq_None_iff set_map)

lemma same_struct_touch [simp]: "same_struct g (touch g k)"
  by (simp add: same_struct_def)

lemma same_struct_with_color [simp]: "same_struct g (with_color g k c)"
  by (simp add: same_struct_def)

lemma same_struct_with_saturation [simp]: "same_struct g (with_saturation g k s)"
  by (simp add: same_struct_def)

lemma proper_with_color:
  assumes inv: "graph_inv g" and p: "proper g" and c: "c |\<notin>| nbr_colors g k"
  shows "proper (with_color g k (Some c))"
  unfolding proper_def
proof (intro allI impI)
  fix u v d
  assume e: "v |\<in>| adj (with_color g k (Some c)) u"
    and cu: "node_color (with_color g k (Some c)) u = Some d"
  from e have e': "v |\<in>| adj g u"
    by simp
  then have e'': "u |\<in>| adj g v" and uv: "v \<noteq> u"
    using inv inv_adj by blast+
  show "node_color (with_color g k (Some c)) v \<noteq> Some d"
  proof (cases "u = k")
    case True
    have pres: "map_of (nodes g) k \<noteq> None"
    proof
      assume "map_of (nodes g) k = None"
      then have "node_color (with_color g k (Some c)) k = None"
        by (simp add: node_color_def map_of_with_color)
      with cu True show False
        by simp
    qed
    with cu True have "d = c"
      by (simp add: node_color_with_color)
    moreover have "node_color g v \<noteq> Some c"
      using c e' True by (auto simp: nbr_colors_iff)
    ultimately show ?thesis
      using uv True by (simp add: node_color_with_color)
  next
    case False
    with cu have cu': "node_color g u = Some d"
      by (simp add: node_color_with_color)
    show ?thesis
    proof (cases "v = k")
      case True
      have "node_color g u \<noteq> Some c"
        using c e'' True by (auto simp: nbr_colors_iff)
      with cu' have "d \<noteq> c"
        by auto
      moreover have "node_color g k \<noteq> Some d"
        using p e' cu' True by (auto simp: proper_def)
      ultimately show ?thesis
        using True by (auto simp: node_color_with_color)
    next
      case False
      then show ?thesis
        using p e' cu' by (auto simp: node_color_with_color proper_def)
    qed
  qed
qed

lemma bounded_with_color:
  assumes inv: "graph_inv g" and b: "bounded g" and c: "0 \<le> c" "c \<le> int (fcard (adj g k))"
  shows "bounded (with_color g k (Some c))"
  unfolding bounded_def
proof (intro allI impI)
  fix x n d
  assume n: "map_of (nodes (with_color g k (Some c))) x = Some n" and d: "color n = Some d"
  show "0 \<le> d \<and> d \<le> degree n"
  proof (cases "x = k")
    case True
    with n obtain m where m: "map_of (nodes g) k = Some m" and nm: "n = m\<lparr>color := Some c\<rparr>"
      by (auto simp: map_of_with_color)
    from inv_node [OF inv m] have "degree m = int (fcard (adj g k))"
      by simp
    with nm d c show ?thesis
      by simp
  next
    case False
    with n have "map_of (nodes g) x = Some n"
      by (simp add: map_of_with_color)
    with b d show ?thesis
      unfolding bounded_def by blast
  qed
qed

lemma proper_cong: "adj g' = adj g \<Longrightarrow> node_color g' = node_color g \<Longrightarrow> proper g' = proper g"
  by (simp add: proper_def)

lemma bounded_with_saturation [simp]: "bounded (with_saturation g k s) = bounded g"
  unfolding bounded_def map_of_with_saturation
  by (rule iffI; clarsimp split: if_splits; fastforce)

lemma col_inv_touch [simp]: "col_inv g \<Longrightarrow> col_inv (touch g k)"
  by (simp add: col_inv_def proper_cong [of "touch g k" g] bounded_def)

lemma col_inv_with_saturation [simp]: "col_inv g \<Longrightarrow> col_inv (with_saturation g k s)"
  by (simp add: col_inv_def proper_cong [of "with_saturation g k s" g])

lemma assign_first_fit_eq:
  assumes "graph_inv g" and "map_of (nodes g) k \<noteq> None"
  shows "assign_first_fit k k g =
     (Inr (), with_color (touch g k) k (Some (get_smallest_available_color (nbr_colors g k))))"
  using assms
  by (simp add: assign_first_fit_def get_neighbor_colors_inv update_node_color)

lemma col_inv_first_fit:
  assumes "col_inv g"
  shows "col_inv (with_color (touch g k) k (Some (get_smallest_available_color (nbr_colors g k))))"
proof -
  let ?c = "get_smallest_available_color (nbr_colors g k)"
  have t: "col_inv (touch g k)"
    using assms by simp
  have 1: "?c |\<notin>| nbr_colors (touch g k) k"
    by (simp add: smallest_available_notin)
  have 2: "0 \<le> ?c" "?c \<le> int (fcard (adj (touch g k) k))"
    using smallest_available_range [of "nbr_colors g k"] fcard_nbr_colors [of g k] by simp_all
  show ?thesis
    using t proper_with_color [OF _ _ 1] bounded_with_color [OF _ _ 2]
    by (simp add: col_inv_def)
qed

section \<open>Colouring the nodes of a list one after the other\<close>

lemma for_each_cong:
  "(\<And>x g. x \<in> set xs \<Longrightarrow> f x g = h x g) \<Longrightarrow> for_each f xs g = for_each h xs g"
  by (induction xs arbitrary: g) (auto split: prod.splits sum.splits)

lemma for_each_map: "for_each f (map h xs) g = for_each (\<lambda>x. f (h x)) xs g"
  by (induction xs arbitrary: g) (auto split: prod.splits sum.splits)

lemma for_each_first_fit:
  assumes "col_inv g" and "\<forall>k \<in> set ks. map_of (nodes g) k \<noteq> None"
  shows "\<exists>g'. for_each (\<lambda>k. assign_first_fit k k) ks g = (Inr (), g') \<and> col_inv g' \<and>
           same_struct g g' \<and> (\<forall>k \<in> set ks. node_color g' k \<noteq> None) \<and>
           (\<forall>k. node_color g k \<noteq> None \<longrightarrow> node_color g' k \<noteq> None)"
  using assms
proof (induction ks arbitrary: g)
  case Nil
  then show ?case
    by simp
next
  case (Cons k ks)
  let ?g1 = "with_color (touch g k) k (Some (get_smallest_available_color (nbr_colors g k)))"
  have inv: "graph_inv g" and k: "map_of (nodes g) k \<noteq> None"
    using Cons.prems by (simp_all add: col_inv_def)
  have step: "assign_first_fit k k g = (Inr (), ?g1)"
    using inv k by (rule assign_first_fit_eq)
  have c1: "col_inv ?g1"
    using Cons.prems(1) by (rule col_inv_first_fit)
  have s1: "same_struct g ?g1"
    by (rule same_struct_trans [of _ "touch g k"]) simp_all
  have "\<forall>x \<in> set ks. map_of (nodes ?g1) x \<noteq> None"
    using Cons.prems(2) same_struct_keys [OF s1] by simp
  from Cons.IH [OF c1 this] obtain g' where
    r: "for_each (\<lambda>k. assign_first_fit k k) ks ?g1 = (Inr (), g')" and c': "col_inv g'"
    and s': "same_struct ?g1 g'" and all: "\<forall>x \<in> set ks. node_color g' x \<noteq> None"
    and keep: "\<forall>x. node_color ?g1 x \<noteq> None \<longrightarrow> node_color g' x \<noteq> None"
    by blast
  have nk: "node_color ?g1 k \<noteq> None"
    using k by (simp add: node_color_with_color)
  have old: "node_color g x \<noteq> None \<Longrightarrow> node_color ?g1 x \<noteq> None" for x
    by (simp add: node_color_with_color)
  show ?case
  proof (intro exI conjI)
    show "for_each (\<lambda>k. assign_first_fit k k) (k # ks) g = (Inr (), g')"
      using step r by simp
    show "col_inv g'"
      by (rule c')
    show "same_struct g g'"
      using s1 s' by (rule same_struct_trans)
    show "\<forall>x \<in> set (k # ks). node_color g' x \<noteq> None"
      using all keep nk by auto
    show "\<forall>x. node_color g x \<noteq> None \<longrightarrow> node_color g' x \<noteq> None"
      using keep old by blast
  qed
qed

section \<open>\<open>reset_colors\<close>, \<open>count_conflicts\<close> and the statistics\<close>

lemma map_of_reset_colors:
  "map_of (nodes (reset_colors g)) k
     = map_option (\<lambda>n. n\<lparr>color := None, saturation := 0\<rparr>) (map_of (nodes g) k)"
  by (simp add: reset_colors_def map_of_map)

lemma reset_colors_simps [simp]:
  "map fst (nodes (reset_colors g)) = map fst (nodes g)"
  "edges (reset_colors g) = edges g" "adjacency (reset_colors g) = adjacency g"
  "adj (reset_colors g) = adj g"
  "length (nodes (reset_colors g)) = length (nodes g)"
  by (auto simp: reset_colors_def adj_def fun_eq_iff case_prod_unfold)

lemma reset_colors_fields [simp]:
  "degree_of (reset_colors g) = degree_of g" "node_color (reset_colors g) k = None"
  by (auto simp: degree_of_def node_color_def fun_eq_iff map_of_reset_colors
      option.map_comp comp_def split: option.splits)

lemma saturation_of_reset_colors:
  "saturation_of (reset_colors g) k = (if map_of (nodes g) k = None then None else Some 0)"
  by (auto simp: saturation_of_def map_of_reset_colors)

lemma same_struct_reset [simp]: "same_struct g (reset_colors g)"
  by (simp add: same_struct_def)

lemma graph_inv_reset [simp]:
  assumes "graph_inv g"
  shows "graph_inv (reset_colors g)"
  by (rule graph_inv_node_fields [OF assms]) (auto simp: map_of_reset_colors)

lemma col_inv_reset [simp]: "graph_inv g \<Longrightarrow> col_inv (reset_colors g)"
  by (auto simp: col_inv_def proper_def bounded_def map_of_reset_colors)

lemma count_conflicts_loop_eq:
  assumes "\<forall>e \<in> set es. map_of (nodes g) (fst e) \<noteq> None \<and> map_of (nodes g) (snd e) \<noteq> None"
  shows "count_conflicts_loop (nodes g) es acc = Inr (acc + int (length (filter (conflict g) es)))"
  using assms
proof (induction es arbitrary: acc)
  case Nil
  then show ?case
    by simp
next
  case (Cons e es)
  obtain u v where e: "e = (u, v)"
    by (cases e)
  from Cons.prems e obtain nu nv where n: "map_of (nodes g) u = Some nu" "map_of (nodes g) v = Some nv"
    by auto
  have c: "conflict g (u, v) \<longleftrightarrow> color nu \<noteq> None \<and> color nu = color nv"
    using n by (simp add: conflict_def node_color_def)
  have IH: "count_conflicts_loop (nodes g) es a = Inr (a + int (length (filter (conflict g) es)))" for a
    using Cons.IH Cons.prems by simp
  show ?case
    using n c by (cases "color nu"; cases "color nv") (auto simp: e IH)
qed

lemma count_conflicts_eq:
  assumes "graph_inv g"
  shows "count_conflicts g = Inr (int (length (filter (conflict g) (edges g))))"
proof -
  have "\<forall>e \<in> set (edges g). map_of (nodes g) (fst e) \<noteq> None \<and> map_of (nodes g) (snd e) \<noteq> None"
    using assms inv_edge by (metis prod.collapse)
  from count_conflicts_loop_eq [OF this, of 0] show ?thesis
    by (simp add: count_conflicts_def)
qed

lemma no_conflict_proper:
  assumes "graph_inv g" and "proper g"
  shows "filter (conflict g) (edges g) = []"
proof -
  have "\<not> conflict g e" if "e \<in> set (edges g)" for e
  proof -
    obtain u v where e: "e = (u, v)"
      by (cases e)
    with that assms(1) have "v |\<in>| adj g u"
      using inv_edge by blast
    with assms(2) show ?thesis
      unfolding conflict_def proper_def e by (metis fst_conv snd_conv not_None_eq)
  qed
  then show ?thesis
    by (simp add: filter_empty_conv)
qed

lemma count_conflicts_proper: "graph_inv g \<Longrightarrow> proper g \<Longrightarrow> count_conflicts g = Inr 0"
  by (simp add: count_conflicts_eq no_conflict_proper)

lemma compute_stats_eq:
  assumes "graph_inv g"
  shows "compute_stats alg t g = Inr
     \<lparr>algorithm = alg, chromatic_number = get_chromatic_number g,
      conflicts = int (length (filter (conflict g) (edges g))),
      time_ms = py_round2 (t * 1000),
      efficiency = py_round2 (if int (length (nodes g)) > 0
         then of_int (int (length (nodes g)) - get_chromatic_number g)
              / of_int (int (length (nodes g))) * 100 else 0),
      stat_nodes = int (length (nodes g)), stat_edges = int (length (edges g))\<rparr>"
  by (simp add: compute_stats_def count_conflicts_eq [OF assms] Let_def)

lemma compute_stats_good:
  assumes "good_coloring g g'"
  shows "\<exists>st. compute_stats alg t g' = Inr st \<and> conflicts st = 0 \<and>
     chromatic_number st = get_chromatic_number g'"
  using assms
  by (simp add: good_coloring_def col_inv_def compute_stats_eq no_conflict_proper)

section \<open>Greedy and Welsh-Powell\<close>

lemma good_coloring_after:
  assumes "graph_inv g" and "set ks = set (map fst (nodes g))"
  shows "\<exists>g'. for_each (\<lambda>k. assign_first_fit k k) ks (reset_colors g) = (Inr (), g') \<and>
           good_coloring g g'"
proof -
  have "\<forall>k \<in> set ks. map_of (nodes (reset_colors g)) k \<noteq> None"
    using assms(2) by (simp add: map_of_reset_colors map_of_eq_None_iff)
  from for_each_first_fit [OF col_inv_reset [OF assms(1)] this] obtain g' where
    r: "for_each (\<lambda>k. assign_first_fit k k) ks (reset_colors g) = (Inr (), g')"
    and c: "col_inv g'" and s: "same_struct (reset_colors g) g'"
    and a: "\<forall>k \<in> set ks. node_color g' k \<noteq> None"
    by blast
  have s': "same_struct g g'"
    using same_struct_reset s by (rule same_struct_trans)
  have "node_color g' k \<noteq> None" if "map_of (nodes g') k \<noteq> None" for k
  proof -
    from that have "k \<in> set (map fst (nodes g'))"
      by (simp add: map_of_eq_None_iff)
    with s' assms(2) have "k \<in> set ks"
      by (simp add: same_struct_def)
    with a show ?thesis
      by blast
  qed
  with r c s' show ?thesis
    unfolding good_coloring_def by blast
qed

lemma greedy_good:
  assumes "graph_inv g"
  shows "\<exists>st g'. greedy_coloring t g = (Inr st, g') \<and> good_coloring g g' \<and>
     compute_stats ''Greedy'' t g' = Inr st"
proof -
  have "set (sort (map fst (nodes (reset_colors g)))) = set (map fst (nodes g))"
    by simp
  from good_coloring_after [OF assms this] obtain g' where
    r: "for_each (\<lambda>k. assign_first_fit k k) (sort (map fst (nodes (reset_colors g))))
          (reset_colors g) = (Inr (), g')" and gc: "good_coloring g g'"
    by blast
  from compute_stats_good [OF gc] obtain st where st: "compute_stats ''Greedy'' t g' = Inr st"
    by blast
  show ?thesis
    using r gc st by (simp add: greedy_coloring_def Let_def)
qed

lemma welsh_powell_good:
  assumes "graph_inv g"
  shows "\<exists>st g'. welsh_powell t g = (Inr st, g') \<and> good_coloring g g' \<and>
     compute_stats ''Welsh-Powell'' t g' = Inr st"
proof -
  let ?g0 = "reset_colors g"
  let ?sn = "sort_key (\<lambda>(k, n). - degree n) (nodes ?g0)"
  have inv0: "graph_inv ?g0"
    using assms by simp
  have id: "node_id n = k" if "(k, n) \<in> set ?sn" for k n
  proof -
    from that inv0 have "map_of (nodes ?g0) k = Some n"
      by (simp add: graph_inv_def)
    with inv0 show ?thesis
      using inv_node by blast
  qed
  have "for_each (\<lambda>(k, n). assign_first_fit k (node_id n)) ?sn ?g0
      = for_each (\<lambda>x. assign_first_fit (fst x) (fst x)) ?sn ?g0"
    by (rule for_each_cong) (auto simp: id)
  also have "\<dots> = for_each (\<lambda>k. assign_first_fit k k) (map fst ?sn) ?g0"
    by (simp add: for_each_map)
  finally have eq: "for_each (\<lambda>(k, n). assign_first_fit k (node_id n)) ?sn ?g0
      = for_each (\<lambda>k. assign_first_fit k k) (map fst ?sn) ?g0" .
  have "set (map fst ?sn) = set (map fst (nodes g))"
    by (metis reset_colors_simps(1) set_map set_sort)
  from good_coloring_after [OF assms this] obtain g' where
    r: "for_each (\<lambda>k. assign_first_fit k k) (map fst ?sn) ?g0 = (Inr (), g')"
    and gc: "good_coloring g g'"
    by blast
  from compute_stats_good [OF gc] obtain st where
    st: "compute_stats ''Welsh-Powell'' t g' = Inr st"
    by blast
  show ?thesis
    using r gc st eq by (simp add: welsh_powell_def Let_def)
qed

section \<open>Python's \<open>max\<close> and set iteration\<close>

lemma py_max_loop_spec:
  assumes key: "\<forall>x \<in> set xs. key x = Inr (f x)"
    and trans: "\<And>a b c. gt a b \<Longrightarrow> gt b c \<Longrightarrow> gt a c"
    and negtrans: "\<And>a b c. \<not> gt a b \<Longrightarrow> \<not> gt b c \<Longrightarrow> \<not> gt a c"
  shows "\<exists>m pre post. py_max_loop key gt best (f best) xs = Inr m \<and>
           best # xs = pre @ m # post \<and>
           (\<forall>y \<in> set pre. gt (f m) (f y)) \<and> (\<forall>y \<in> set post. \<not> gt (f y) (f m))"
  using key
proof (induction xs arbitrary: best)
  case Nil
  show ?case
    by (rule exI [of _ best], rule exI [of _ "[]"], rule exI [of _ "[]"]) simp
next
  case (Cons x xs)
  have kx: "key x = Inr (f x)" and kxs: "\<forall>y \<in> set xs. key y = Inr (f y)"
    using Cons.prems by simp_all
  show ?case
  proof (cases "gt (f x) (f best)")
    case True
    from Cons.IH [OF kxs, of x] obtain m pre post where
      r: "py_max_loop key gt x (f x) xs = Inr m" and l: "x # xs = pre @ m # post"
      and p: "\<forall>y \<in> set pre. gt (f m) (f y)" and q: "\<forall>y \<in> set post. \<not> gt (f y) (f m)"
      by blast
    have "gt (f m) (f best)"
    proof (cases pre)
      case Nil
      with l have "m = x"
        by simp
      with True show ?thesis
        by simp
    next
      case (Cons a pre')
      with l have "x \<in> set pre"
        by simp
      with p have "gt (f m) (f x)"
        by blast
      with True show ?thesis
        using trans by blast
    qed
    with p have p': "\<forall>y \<in> set (best # pre). gt (f m) (f y)"
      by simp
    have l': "best # x # xs = (best # pre) @ m # post"
      using l by simp
    have r': "py_max_loop key gt best (f best) (x # xs) = Inr m"
      using r kx True by simp
    show ?thesis
      using r' l' p' q by blast
  next
    case False
    from Cons.IH [OF kxs, of best] obtain m pre post where
      r: "py_max_loop key gt best (f best) xs = Inr m" and l: "best # xs = pre @ m # post"
      and p: "\<forall>y \<in> set pre. gt (f m) (f y)" and q: "\<forall>y \<in> set post. \<not> gt (f y) (f m)"
      by blast
    have r': "py_max_loop key gt best (f best) (x # xs) = Inr m"
      using r kx False by simp
    show ?thesis
    proof (cases pre)
      case Nil
      with l have m: "m = best" and post: "post = xs"
        by simp_all
      have "best # x # xs = [] @ m # (x # post)"
        using m post by simp
      moreover have "\<forall>y \<in> set (x # post). \<not> gt (f y) (f m)"
        using q False m by simp
      ultimately show ?thesis
        using r' by (metis empty_iff list.set(1))
    next
      case (Cons a pre')
      with l have a: "a = best" and xs: "xs = pre' @ m # post"
        by simp_all
      from p Cons a have mb: "gt (f m) (f best)"
        by simp
      have "gt (f m) (f x)"
      proof (rule ccontr)
        assume "\<not> gt (f m) (f x)"
        from negtrans [OF this False] mb show False
          by simp
      qed
      with p Cons a have "\<forall>y \<in> set (best # x # pre'). gt (f m) (f y)"
        by simp
      moreover have "best # x # xs = (best # x # pre') @ m # post"
        using xs by simp
      ultimately show ?thesis
        using r' q by blast
    qed
  qed
qed

lemma py_max_spec:
  assumes ne: "xs \<noteq> []" and key: "\<forall>x \<in> set xs. key x = Inr (f x)"
    and trans: "\<And>a b c. gt a b \<Longrightarrow> gt b c \<Longrightarrow> gt a c"
    and negtrans: "\<And>a b c. \<not> gt a b \<Longrightarrow> \<not> gt b c \<Longrightarrow> \<not> gt a c"
  shows "\<exists>m pre post. py_max key gt xs = Inr m \<and> xs = pre @ m # post \<and>
           (\<forall>y \<in> set pre. gt (f m) (f y)) \<and> (\<forall>y \<in> set post. \<not> gt (f y) (f m))"
proof -
  from ne obtain b ys where xs: "xs = b # ys"
    by (cases xs) auto
  with key have kb: "key b = Inr (f b)" and kys: "\<forall>x \<in> set ys. key x = Inr (f x)"
    by simp_all
  from py_max_loop_spec [of ys key f gt b, OF kys trans negtrans]
  show ?thesis
    using kb by (simp add: py_max_def xs)
qed

lemma int_gt_trans: "int_gt a b \<Longrightarrow> int_gt b c \<Longrightarrow> int_gt a c"
  and int_gt_negtrans: "\<not> int_gt a b \<Longrightarrow> \<not> int_gt b c \<Longrightarrow> \<not> int_gt a c"
  by (simp_all add: int_gt_def)

lemma tuple_gt_trans: "tuple_gt a b \<Longrightarrow> tuple_gt b c \<Longrightarrow> tuple_gt a c"
  and tuple_gt_negtrans: "\<not> tuple_gt a b \<Longrightarrow> \<not> tuple_gt b c \<Longrightarrow> \<not> tuple_gt a c"
  by (auto simp: tuple_gt_def)

lemma set_iter_set [simp]: "set (iter_set rank S) = fset S"
  by (simp add: iter_set_def)

lemma distinct_iter_set [simp]: "distinct (iter_set rank S)"
  by (simp add: iter_set_def sorted_list_of_fset.rep_eq)

lemma iter_set_empty_iff [simp]: "iter_set rank S = [] \<longleftrightarrow> S = {||}"
  by (metis set_iter_set set_empty bot_fset.rep_eq fset_inject)

lemma node_field_present: "map_of (nodes g) k = Some n \<Longrightarrow> node_field g f k = Inr (f n)"
  by (simp add: node_field_def)

section \<open>The saturation updates of DSATUR\<close>

lemma saturation_of_with_saturation:
  "saturation_of (with_saturation g k s) x =
     (if x = k \<and> map_of (nodes g) k \<noteq> None then Some s else saturation_of g x)"
  by (auto simp: saturation_of_def map_of_with_saturation)

lemma update_node_saturation_const:
  "map_of (nodes g) k \<noteq> None \<Longrightarrow>
     update_node g k (\<lambda>n. n\<lparr>saturation := s\<rparr>) = (Inr (), with_saturation g k s)"
  by (auto simp: update_node_def with_saturation_def)

lemma nbr_colors_cong: "adj g' = adj g \<Longrightarrow> node_color g' = node_color g \<Longrightarrow> nbr_colors g' = nbr_colors g"
  by (simp add: nbr_colors_def fun_eq_iff)

lemma refresh_saturation_eq:
  assumes "graph_inv g" and "map_of (nodes g) k \<noteq> None"
  shows "refresh_saturation unc k g =
     (Inr (), if k |\<in>| unc then with_saturation (touch g k) k (int (fcard (nbr_colors g k))) else g)"
  using assms
  by (simp add: refresh_saturation_def get_neighbor_colors_inv update_node_saturation_const)

lemma bump_saturation_eq:
  assumes "map_of (nodes g) k = Some n"
  shows "bump_saturation unc k g =
     (Inr (), if k |\<in>| unc then with_saturation g k (saturation n + 1) else g)"
  using update_node_saturation [OF assms, of "\<lambda>s. s + 1"]
  by (simp add: bump_saturation_def)

lemma for_each_refresh:
  assumes "col_inv g" and "\<forall>x \<in> set xs. map_of (nodes g) x \<noteq> None"
  shows "\<exists>g'. for_each (refresh_saturation unc) xs g = (Inr (), g') \<and> col_inv g' \<and>
           same_struct g g' \<and> node_color g' = node_color g \<and>
           (\<forall>k. saturation_of g' k =
              (if k \<in> set xs \<and> k |\<in>| unc then Some (int (fcard (nbr_colors g k)))
               else saturation_of g k))"
  using assms
proof (induction xs arbitrary: g)
  case Nil
  then show ?case
    by simp
next
  case (Cons x xs)
  define g1 where "g1 = (if x |\<in>| unc
      then with_saturation (touch g x) x (int (fcard (nbr_colors g x))) else g)"
  have inv: "graph_inv g" and px: "map_of (nodes g) x \<noteq> None"
    using Cons.prems by (simp_all add: col_inv_def)
  have step: "refresh_saturation unc x g = (Inr (), g1)"
    using refresh_saturation_eq [OF inv px] by (simp add: g1_def)
  have c1: "col_inv g1"
    using Cons.prems(1) by (simp add: g1_def)
  have s1: "same_struct g g1"
    unfolding g1_def by (auto intro: same_struct_trans [of _ "touch g x"])
  have n1: "node_color g1 = node_color g"
    by (simp add: g1_def)
  have a1: "adj g1 = adj g"
    using s1 by (simp add: same_struct_def)
  have nb1: "nbr_colors g1 = nbr_colors g"
    using a1 n1 by (rule nbr_colors_cong)
  have sat1: "saturation_of g1 k =
      (if k = x \<and> x |\<in>| unc then Some (int (fcard (nbr_colors g x))) else saturation_of g k)" for k
    using px by (simp add: g1_def saturation_of_with_saturation)
  have "\<forall>y \<in> set xs. map_of (nodes g1) y \<noteq> None"
    using Cons.prems(2) same_struct_keys [OF s1] by simp
  from Cons.IH [OF c1 this] obtain g' where
    r: "for_each (refresh_saturation unc) xs g1 = (Inr (), g')" and c': "col_inv g'"
    and s': "same_struct g1 g'" and n': "node_color g' = node_color g1"
    and sat': "\<forall>k. saturation_of g' k =
              (if k \<in> set xs \<and> k |\<in>| unc then Some (int (fcard (nbr_colors g1 k)))
               else saturation_of g1 k)"
    by blast
  show ?case
  proof (intro exI conjI)
    show "for_each (refresh_saturation unc) (x # xs) g = (Inr (), g')"
      using step r by simp
    show "col_inv g'"
      by (rule c')
    show "same_struct g g'"
      using s1 s' by (rule same_struct_trans)
    show "node_color g' = node_color g"
      using n' n1 by simp
    show "\<forall>k. saturation_of g' k =
              (if k \<in> set (x # xs) \<and> k |\<in>| unc then Some (int (fcard (nbr_colors g k)))
               else saturation_of g k)"
      using sat' sat1 nb1 by auto
  qed
qed

lemma for_each_bump:
  assumes "col_inv g" and "\<forall>x \<in> set xs. map_of (nodes g) x \<noteq> None" and "distinct xs"
  shows "\<exists>g'. for_each (bump_saturation unc) xs g = (Inr (), g') \<and> col_inv g' \<and>
           same_struct g g' \<and> node_color g' = node_color g \<and>
           (\<forall>k. saturation_of g' k =
              (if k \<in> set xs \<and> k |\<in>| unc then map_option (\<lambda>s. s + 1) (saturation_of g k)
               else saturation_of g k))"
  using assms
proof (induction xs arbitrary: g)
  case Nil
  then show ?case
    by simp
next
  case (Cons x xs)
  from Cons.prems obtain n where n: "map_of (nodes g) x = Some n"
    by auto
  define g1 where "g1 = (if x |\<in>| unc then with_saturation g x (saturation n + 1) else g)"
  have step: "bump_saturation unc x g = (Inr (), g1)"
    using bump_saturation_eq [OF n] by (simp add: g1_def)
  have c1: "col_inv g1"
    using Cons.prems(1) by (simp add: g1_def)
  have s1: "same_struct g g1"
    by (simp add: g1_def)
  have n1: "node_color g1 = node_color g"
    by (simp add: g1_def)
  have sat1: "saturation_of g1 k =
      (if k = x \<and> x |\<in>| unc then map_option (\<lambda>s. s + 1) (saturation_of g k)
       else saturation_of g k)" for k
    using n by (simp add: g1_def saturation_of_with_saturation) (simp add: saturation_of_def)
  have "\<forall>y \<in> set xs. map_of (nodes g1) y \<noteq> None"
    using Cons.prems(2) same_struct_keys [OF s1] by simp
  moreover have "distinct xs" and nx: "x \<notin> set xs"
    using Cons.prems(3) by simp_all
  ultimately obtain g' where
    r: "for_each (bump_saturation unc) xs g1 = (Inr (), g')" and c': "col_inv g'"
    and s': "same_struct g1 g'" and n': "node_color g' = node_color g1"
    and sat': "\<forall>k. saturation_of g' k =
              (if k \<in> set xs \<and> k |\<in>| unc then map_option (\<lambda>s. s + 1) (saturation_of g1 k)
               else saturation_of g1 k)"
    using Cons.IH [OF c1] by blast
  show ?case
  proof (intro exI conjI)
    show "for_each (bump_saturation unc) (x # xs) g = (Inr (), g')"
      using step r by simp
    show "col_inv g'"
      by (rule c')
    show "same_struct g g'"
      using s1 s' by (rule same_struct_trans)
    show "node_color g' = node_color g"
      using n' n1 by simp
    show "\<forall>k. saturation_of g' k =
              (if k \<in> set (x # xs) \<and> k |\<in>| unc then map_option (\<lambda>s. s + 1) (saturation_of g k)
               else saturation_of g k)"
      using sat' sat1 nx by auto
  qed
qed

section \<open>The selections of DSATUR\<close>

lemma select_first_spec:
  assumes inv: "graph_inv g" and ne: "unc \<noteq> {||}"
    and pres: "\<forall>k. k |\<in>| unc \<longrightarrow> map_of (nodes g) k \<noteq> None"
  shows "\<exists>s pre post. select_first rank g unc = Inr s \<and> iter_set rank unc = pre @ s # post \<and>
     (\<forall>y \<in> set pre. fcard (adj g y) < fcard (adj g s)) \<and>
     (\<forall>y \<in> set post. fcard (adj g y) \<le> fcard (adj g s))"
proof -
  have key: "\<forall>x \<in> set (iter_set rank unc). node_field g degree x = Inr (int (fcard (adj g x)))"
  proof
    fix x assume "x \<in> set (iter_set rank unc)"
    then have "x |\<in>| unc"
      by simp
    with pres obtain n where n: "map_of (nodes g) x = Some n"
      by blast
    with inv_node [OF inv n] show "node_field g degree x = Inr (int (fcard (adj g x)))"
      by (simp add: node_field_present)
  qed
  have "iter_set rank unc \<noteq> []"
    using ne by simp
  from py_max_spec [OF this key, of int_gt] int_gt_trans int_gt_negtrans
  obtain m pre post where "py_max (node_field g degree) int_gt (iter_set rank unc) = Inr m"
    "iter_set rank unc = pre @ m # post"
    "\<forall>y \<in> set pre. int_gt (int (fcard (adj g m))) (int (fcard (adj g y)))"
    "\<forall>y \<in> set post. \<not> int_gt (int (fcard (adj g y))) (int (fcard (adj g m)))"
    by blast
  then show ?thesis
    unfolding select_first_def int_gt_def by (intro exI [of _ m] exI [of _ pre] exI [of _ post]) auto
qed

lemma select_next_spec:
  assumes inv: "dsatur_inv g0 unc g" and ne: "unc \<noteq> {||}"
  shows "\<exists>s pre post. select_next rank g unc = Inr s \<and> iter_set rank unc = pre @ s # post \<and>
     (\<forall>y \<in> set pre. tuple_gt (int (fcard (nbr_colors g s)), int (fcard (adj g s)))
                              (int (fcard (nbr_colors g y)), int (fcard (adj g y)))) \<and>
     (\<forall>y \<in> set post. \<not> tuple_gt (int (fcard (nbr_colors g y)), int (fcard (adj g y)))
                                 (int (fcard (nbr_colors g s)), int (fcard (adj g s))))"
proof -
  have ginv: "graph_inv g"
    using inv by (simp add: dsatur_inv_def col_inv_def)
  have key: "\<forall>x \<in> set (iter_set rank unc).
      node_field g (\<lambda>n. (saturation n, degree n)) x
        = Inr ((\<lambda>k. (int (fcard (nbr_colors g k)), int (fcard (adj g k)))) x)"
  proof
    fix x assume "x \<in> set (iter_set rank unc)"
    then have x: "x |\<in>| unc"
      by simp
    with inv obtain n where n: "map_of (nodes g) x = Some n"
      unfolding dsatur_inv_def by blast
    from inv x have "saturation_of g x = Some (int (fcard (nbr_colors g x)))"
      unfolding dsatur_inv_def by blast
    with n have "saturation n = int (fcard (nbr_colors g x))"
      by (simp add: saturation_of_def)
    with inv_node [OF ginv n]
    show "node_field g (\<lambda>n. (saturation n, degree n)) x
        = Inr ((\<lambda>k. (int (fcard (nbr_colors g k)), int (fcard (adj g k)))) x)"
      by (simp add: node_field_present [OF n])
  qed
  have "iter_set rank unc \<noteq> []"
    using ne by simp
  from py_max_spec [OF this key, of tuple_gt] tuple_gt_trans tuple_gt_negtrans
  show ?thesis
    unfolding select_next_def by blast
qed

section \<open>The seed step and the loop of DSATUR\<close>

lemma nbr_colors_empty: "(\<forall>k. node_color g k = None) \<Longrightarrow> nbr_colors g k = {||}"
  by (auto simp: nbr_colors_def)

lemma dd_get_ex: "\<exists>a. dd_get (adjacency g) k = (adj g k, a) \<and> g\<lparr>adjacency := a\<rparr> = touch g k"
  using dd_get_adj [of g k]
  by (intro exI [of _ "snd (dd_get (adjacency g) k)"]) (simp add: touch_def)

lemma dsatur_seed_spec:
  assumes inv: "graph_inv g"
  shows "\<exists>unc' g1. dsatur_seed rank (fset_of_list (map fst (nodes (reset_colors g))))
            (reset_colors g) = (Inr unc', g1) \<and> dsatur_inv g unc' g1"
proof -
  let ?g0 = "reset_colors g"
  let ?unc = "fset_of_list (map fst (nodes ?g0))"
  have inv0: "graph_inv ?g0" and c0: "col_inv ?g0"
    using inv by simp_all
  have pres: "k |\<in>| ?unc \<longleftrightarrow> map_of (nodes ?g0) k \<noteq> None" for k
    by (metis fset_of_list_elem map_of_eq_None_iff set_map)
  show ?thesis
  proof (cases "?unc = {||}")
    case True
    then have "\<forall>k. map_of (nodes ?g0) k = None"
      using pres by (metis fempty_iff)
    then have "dsatur_inv g ?unc ?g0"
      using c0 True unfolding dsatur_inv_def by simp
    moreover have "dsatur_seed rank ?unc ?g0 = (Inr ?unc, ?g0)"
      using True by (simp add: dsatur_seed_def del: reset_colors_simps)
    ultimately show ?thesis
      by blast
  next
    case False
    from select_first_spec [OF inv0 False] pres obtain s pre post where
      sel: "select_first rank ?g0 ?unc = Inr s" and l: "iter_set rank ?unc = pre @ s # post"
      by blast
    have "s \<in> set (iter_set rank ?unc)"
      using l by simp
    then have s: "s |\<in>| ?unc"
      by simp
    then have ps: "map_of (nodes ?g0) s \<noteq> None"
      using pres by blast
    let ?g1 = "with_color ?g0 s (Some 0)"
    let ?unc' = "?unc |-| {|s|}"
    have up: "update_node ?g0 s (\<lambda>n. n\<lparr>color := Some 0\<rparr>) = (Inr (), ?g1)"
      using ps by (rule update_node_color)
    have rm: "set_remove ?unc s = Inr ?unc'"
      using s by (simp add: set_remove_def del: reset_colors_simps)
    have nb0: "nbr_colors ?g0 k = {||}" for k
      by (rule nbr_colors_empty) simp
    have c1: "col_inv ?g1"
      using c0 proper_with_color [of ?g0 0 s] bounded_with_color [of ?g0 0 s]
      by (simp add: col_inv_def nb0)
    have ct: "col_inv (touch ?g1 s)"
      using c1 by simp
    have "\<forall>x \<in> set (iter_set rank (adj ?g1 s)). map_of (nodes (touch ?g1 s)) x \<noteq> None"
      using c1 inv_adj [of ?g1 _ s] by (simp add: col_inv_def)
    from for_each_bump [OF ct this distinct_iter_set, of ?unc'] obtain g2 where
      fe: "for_each (bump_saturation ?unc') (iter_set rank (adj ?g1 s)) (touch ?g1 s) = (Inr (), g2)"
      and c2: "col_inv g2" and s2: "same_struct (touch ?g1 s) g2"
      and n2: "node_color g2 = node_color (touch ?g1 s)"
      and sat2: "\<forall>k. saturation_of g2 k =
          (if k \<in> set (iter_set rank (adj ?g1 s)) \<and> k |\<in>| ?unc'
           then map_option (\<lambda>s. s + 1) (saturation_of (touch ?g1 s) k)
           else saturation_of (touch ?g1 s) k)"
      by blast
    from dd_get_ex [of ?g1 s] obtain a where
      dd: "dd_get (adjacency ?g1) s = (adj ?g1 s, a)" and ta: "?g1\<lparr>adjacency := a\<rparr> = touch ?g1 s"
      by blast
    have res: "dsatur_seed rank ?unc ?g0 = (Inr ?unc', g2)"
      unfolding dsatur_seed_def
      by (simp only: False if_False sel sum.case up prod.case rm dd ta fe)
    have st: "same_struct g g2"
      by (rule same_struct_trans [OF _ s2], rule same_struct_trans [of _ ?g1],
          rule same_struct_trans [of _ ?g0]) simp_all
    have adj2: "adj g2 = adj g"
      using st by (simp add: same_struct_def)
    have col2: "node_color g2 k = (if k = s then Some 0 else None)" for k
      using ps by (simp add: n2 node_color_with_color)
    have keys2: "map_of (nodes g2) k \<noteq> None \<longleftrightarrow> map_of (nodes ?g0) k \<noteq> None" for k
      using same_struct_keys [OF st] same_struct_keys [OF same_struct_reset] by blast
    have nb2: "nbr_colors g2 k = (if s |\<in>| adj g k then {|0|} else {||})" for k
      by (rule fset_eqI) (auto simp: nbr_colors_iff adj2 col2)
    have sym: "k |\<in>| adj g s \<longleftrightarrow> s |\<in>| adj g k" for k
      using inv inv_adj by blast
    have sat0: "saturation_of (touch ?g1 s) k = (if map_of (nodes ?g0) k = None then None else Some 0)" for k
      using saturation_of_reset_colors [of g k] by (simp add: map_of_reset_colors)
    have "dsatur_inv g ?unc' g2"
      unfolding dsatur_inv_def
    proof (intro conjI allI impI)
      show "col_inv g2"
        by (rule c2)
      show "same_struct g g2"
        by (rule st)
    next
      fix k assume k: "k |\<in>| ?unc'"
      then have ks: "k \<noteq> s" and ku: "k |\<in>| ?unc"
        by auto
      from ku show "map_of (nodes g2) k \<noteq> None"
        using pres keys2 by blast
      show "node_color g2 k = None"
        using ks by (simp add: col2)
      from ku have pk: "map_of (nodes ?g0) k \<noteq> None"
        using pres by blast
      have z: "saturation_of (touch ?g1 s) k = Some 0"
        using pk by (simp only: sat0 if_False)
      have a1: "adj ?g1 s = adj g s"
        by simp
      show "saturation_of g2 k = Some (int (fcard (nbr_colors g2 k)))"
      proof (cases "k |\<in>| adj g s")
        case True
        then have "saturation_of g2 k = Some 1"
          using sat2 [rule_format, of k] k by (simp only: z a1 set_iter_set) simp
        moreover have "nbr_colors g2 k = {|0|}"
          using True sym [of k] by (simp add: nb2)
        ultimately show ?thesis
          by (simp add: fcard_finsert_if)
      next
        case False
        then have "saturation_of g2 k = Some 0"
          using sat2 [rule_format, of k] by (simp only: z a1 set_iter_set) simp
        moreover have "nbr_colors g2 k = {||}"
          using False sym [of k] by (simp add: nb2)
        ultimately show ?thesis
          by simp
      qed
    next
      fix k assume "map_of (nodes g2) k \<noteq> None" and "k |\<notin>| ?unc'"
      then have "k = s"
        using keys2 pres by auto
      then show "node_color g2 k \<noteq> None"
        by (simp add: col2)
    qed
    with res show ?thesis
      by blast
  qed
qed

section \<open>One turn of the DSATUR loop, and the whole run\<close>

lemma dsatur_step_spec:
  assumes inv: "dsatur_inv g0 unc g" and ne: "unc \<noteq> {||}"
  shows "\<exists>s g'. select_next rank g unc = Inr s \<and> s |\<in>| unc \<and>
           dsatur_step rank unc g = (Inr (unc |-| {|s|}), g') \<and>
           dsatur_inv g0 (unc |-| {|s|}) g' \<and>
           node_color g' = (node_color g)(s := Some (get_smallest_available_color (nbr_colors g s)))"
proof -
  have c: "col_inv g" and ginv: "graph_inv g" and st: "same_struct g0 g"
    using inv by (simp_all add: dsatur_inv_def col_inv_def)
  from select_next_spec [OF inv ne] obtain s pre post where
    sel: "select_next rank g unc = Inr s" and l: "iter_set rank unc = pre @ s # post"
    by blast
  have "s \<in> set (iter_set rank unc)"
    using l by simp
  then have s: "s |\<in>| unc"
    by simp
  then have ps: "map_of (nodes g) s \<noteq> None"
    using inv unfolding dsatur_inv_def by blast
  let ?c = "get_smallest_available_color (nbr_colors g s)"
  let ?g1 = "with_color (touch g s) s (Some ?c)"
  let ?unc' = "unc |-| {|s|}"
  have ff: "assign_first_fit s s g = (Inr (), ?g1)"
    using ginv ps by (rule assign_first_fit_eq)
  have c1: "col_inv ?g1"
    using c by (rule col_inv_first_fit)
  have s1: "same_struct g ?g1"
    by (rule same_struct_trans [of _ "touch g s"]) simp_all
  have rm: "set_remove unc s = Inr ?unc'"
    using s by (simp add: set_remove_def)
  from dd_get_ex [of ?g1 s] obtain a where
    dd: "dd_get (adjacency ?g1) s = (adj ?g1 s, a)" and ta: "?g1\<lparr>adjacency := a\<rparr> = touch ?g1 s"
    by blast
  have ct: "col_inv (touch ?g1 s)"
    using c1 by simp
  have "\<forall>x \<in> set (iter_set rank (adj ?g1 s)). map_of (nodes (touch ?g1 s)) x \<noteq> None"
    using c1 inv_adj [of ?g1 _ s] by (simp add: col_inv_def)
  from for_each_refresh [OF ct this, of ?unc'] obtain g2 where
    fe: "for_each (refresh_saturation ?unc') (iter_set rank (adj ?g1 s)) (touch ?g1 s) = (Inr (), g2)"
    and c2: "col_inv g2" and s2: "same_struct (touch ?g1 s) g2"
    and n2: "node_color g2 = node_color (touch ?g1 s)"
    and sat2: "\<forall>k. saturation_of g2 k =
        (if k \<in> set (iter_set rank (adj ?g1 s)) \<and> k |\<in>| ?unc'
         then Some (int (fcard (nbr_colors (touch ?g1 s) k)))
         else saturation_of (touch ?g1 s) k)"
    by blast
  have res: "dsatur_step rank unc g = (Inr ?unc', g2)"
    unfolding dsatur_step_def
    by (simp only: sel sum.case ff prod.case rm dd ta fe)
  have st2: "same_struct g g2"
    by (rule same_struct_trans [OF s1], rule same_struct_trans [OF _ s2]) simp
  have st02: "same_struct g0 g2"
    using st st2 by (rule same_struct_trans)
  have adj2: "adj g2 = adj g"
    using st2 by (simp add: same_struct_def)
  have col2: "node_color g2 = (node_color g)(s := Some ?c)"
    using ps by (simp add: n2 fun_eq_iff node_color_with_color)
  have nb21: "nbr_colors g2 = nbr_colors (touch ?g1 s)"
    by (rule nbr_colors_cong) (simp_all add: adj2 n2)
  have keys2: "map_of (nodes g2) k \<noteq> None \<longleftrightarrow> map_of (nodes g) k \<noteq> None" for k
    using same_struct_keys [OF st2] by blast
  have sym: "k |\<in>| adj g s \<longleftrightarrow> s |\<in>| adj g k" for k
    using ginv inv_adj by blast
  have far: "nbr_colors g2 k = nbr_colors g k" if "s |\<notin>| adj g k" for k
    using that by (intro fset_eqI) (auto simp: nbr_colors_iff adj2 col2)
  have "dsatur_inv g0 ?unc' g2"
    unfolding dsatur_inv_def
  proof (intro conjI allI impI)
    show "col_inv g2"
      by (rule c2)
    show "same_struct g0 g2"
      by (rule st02)
  next
    fix k assume k: "k |\<in>| ?unc'"
    then have ks: "k \<noteq> s" and ku: "k |\<in>| unc"
      by auto
    from ku inv have old: "map_of (nodes g) k \<noteq> None" "node_color g k = None"
      "saturation_of g k = Some (int (fcard (nbr_colors g k)))"
      unfolding dsatur_inv_def by blast+
    show "map_of (nodes g2) k \<noteq> None"
      using old(1) keys2 by blast
    show "node_color g2 k = None"
      using ks old(2) by (simp add: col2)
    show "saturation_of g2 k = Some (int (fcard (nbr_colors g2 k)))"
    proof (cases "k |\<in>| adj g s")
      case True
      then have "saturation_of g2 k = Some (int (fcard (nbr_colors (touch ?g1 s) k)))"
        using sat2 [rule_format, of k] k by simp
      then show ?thesis
        by (simp add: nb21)
    next
      case False
      then have "saturation_of g2 k = saturation_of g k"
        using sat2 [rule_format, of k] by simp
      moreover have "nbr_colors g2 k = nbr_colors g k"
        using False sym [of k] by (simp add: far)
      ultimately show ?thesis
        using old(3) by simp
    qed
  next
    fix k assume pk: "map_of (nodes g2) k \<noteq> None" and nk: "k |\<notin>| ?unc'"
    show "node_color g2 k \<noteq> None"
    proof (cases "k = s")
      case True
      then show ?thesis
        by (simp add: col2)
    next
      case False
      with nk have "k |\<notin>| unc"
        by simp
      moreover have "map_of (nodes g) k \<noteq> None"
        using pk keys2 by blast
      ultimately have "node_color g k \<noteq> None"
        using inv unfolding dsatur_inv_def by blast
      with False show ?thesis
        by (simp add: col2)
    qed
  qed
  with sel s res col2 show ?thesis
    by blast
qed

lemma dsatur_loop_spec:
  assumes "dsatur_inv g0 unc g"
  shows "\<exists>g'. dsatur_loop rank unc g = (Inr (), g') \<and> dsatur_inv g0 {||} g'"
  using assms
proof (induction "fcard unc" arbitrary: unc g rule: less_induct)
  case less
  show ?case
  proof (cases "unc = {||}")
    case True
    then show ?thesis
      using less.prems by (subst dsatur_loop.simps) simp
  next
    case False
    from dsatur_step_spec [OF less.prems False, of rank] obtain s g1 where
      s: "s |\<in>| unc" and r: "dsatur_step rank unc g = (Inr (unc |-| {|s|}), g1)"
      and i: "dsatur_inv g0 (unc |-| {|s|}) g1"
      by blast
    have "fcard (unc |-| {|s|}) < fcard unc"
      using s by (rule fcard_fminus1_less)
    from less.hyps [OF this i] obtain g' where
      "dsatur_loop rank (unc |-| {|s|}) g1 = (Inr (), g')" "dsatur_inv g0 {||} g'"
      by blast
    then show ?thesis
      using False r by (subst dsatur_loop.simps) simp
  qed
qed

lemma dsatur_good:
  assumes "graph_inv g"
  shows "\<exists>st g'. dsatur rank t g = (Inr st, g') \<and> good_coloring g g' \<and>
     compute_stats ''DSATUR'' t g' = Inr st"
proof -
  from dsatur_seed_spec [OF assms, of rank] obtain unc' g1 where
    seed: "dsatur_seed rank (fset_of_list (map fst (nodes (reset_colors g)))) (reset_colors g)
       = (Inr unc', g1)" and i1: "dsatur_inv g unc' g1"
    by blast
  from dsatur_loop_spec [OF i1, of rank] obtain g' where
    loop: "dsatur_loop rank unc' g1 = (Inr (), g')" and i': "dsatur_inv g {||} g'"
    by blast
  have gc: "good_coloring g g'"
    using i' by (simp add: dsatur_inv_def good_coloring_def)
  from compute_stats_good [OF gc] obtain st where st: "compute_stats ''DSATUR'' t g' = Inr st"
    by blast
  have "dsatur rank t g = (Inr st, g')"
    unfolding dsatur_def Let_def
    by (simp only: seed prod.case sum.case loop st)
  with gc st show ?thesis
    by blast
qed

lemma dsatur_states_inv:
  assumes "(unc, g1) \<in> dsatur_states rank g" and "graph_inv g"
  shows "dsatur_inv g unc g1"
  using assms
proof (induction rule: dsatur_states.induct)
  case (seed uncolored g1)
  with dsatur_seed_spec [OF seed.prems, of rank] show ?case
    by auto
next
  case (step uncolored g1 uncolored' g2)
  from dsatur_step_spec [OF step.IH [OF step.prems] step.hyps(2), of rank] step.hyps(3)
  show ?case
    by auto
qed

section \<open>Exact backtracking\<close>

lemma free_color_exists:
  assumes "fcard (adj g k) < card (set colors)"
  shows "\<exists>c \<in> set colors. c |\<notin>| nbr_colors g k"
proof (rule ccontr)
  assume "\<not> (\<exists>c \<in> set colors. c |\<notin>| nbr_colors g k)"
  then have "set colors \<subseteq> fset (nbr_colors g k)"
    by auto
  then have "card (set colors) \<le> card (fset (nbr_colors g k))"
    by (intro card_mono) auto
  also have "\<dots> \<le> fcard (adj g k)"
    using fcard_nbr_colors [of g k] by (simp add: fcard.rep_eq)
  finally show False
    using assms by simp
qed

lemma bt_pre_touch: "bt_pre g ids \<Longrightarrow> bt_pre (touch g k) ids"
  using proper_cong [of "touch g k" g] by (simp add: bt_pre_def)

lemma bt_post_touch: "bt_post (touch g k) ids ok g' \<Longrightarrow> bt_post g ids ok g'"
  using same_struct_trans [OF same_struct_touch, of g k g'] by (simp add: bt_post_def)

lemma roomy_cong: "same_struct g g' \<Longrightarrow> roomy colors g' ids = roomy colors g ids"
  by (simp add: roomy_def same_struct_def)

lemma try_colors_spec:
  assumes H: "\<And>h. bt_pre h rest \<Longrightarrow>
      \<exists>ok h'. backtrack colors rest h = (Inr ok, h') \<and> bt_post h rest ok h' \<and>
        (roomy colors h rest \<longrightarrow> ok)"
    and pre: "bt_pre g (k # rest)" and nc: "nc = nbr_colors g k"
  shows "\<exists>ok g'. try_colors colors rest k nc cs g = (Inr ok, g') \<and> bt_post g (k # rest) ok g' \<and>
      (roomy colors g rest \<and> (\<exists>c \<in> set cs. c |\<notin>| nc) \<longrightarrow> ok)"
  using pre nc
proof (induction cs arbitrary: g)
  case Nil
  then show ?case
    by (auto simp: bt_post_def bt_pre_def)
next
  case (Cons c cs)
  have inv: "graph_inv g" and p: "proper g" and kr: "k \<notin> set rest" and dr: "distinct rest"
    and pk: "map_of (nodes g) k \<noteq> None" and ck: "node_color g k = None"
    and rest: "\<forall>x \<in> set rest. map_of (nodes g) x \<noteq> None \<and> node_color g x = None"
    using Cons.prems(1) by (simp_all add: bt_pre_def)
  show ?case
  proof (cases "c |\<in>| nc")
    case True
    from Cons.IH [OF Cons.prems] obtain ok g' where
      r: "try_colors colors rest k nc cs g = (Inr ok, g')" and po: "bt_post g (k # rest) ok g'"
      and ro: "roomy colors g rest \<and> (\<exists>c \<in> set cs. c |\<notin>| nc) \<longrightarrow> ok"
      by blast
    have "try_colors colors rest k nc (c # cs) g = (Inr ok, g')"
      using True r by simp
    moreover have "roomy colors g rest \<and> (\<exists>c' \<in> set (c # cs). c' |\<notin>| nc) \<longrightarrow> ok"
      using ro True by auto
    ultimately show ?thesis
      using po by blast
  next
    case False
    let ?g1 = "with_color g k (Some c)"
    have up: "update_node g k (\<lambda>n. n\<lparr>color := Some c\<rparr>) = (Inr (), ?g1)"
      using pk by (rule update_node_color)
    have col1: "node_color ?g1 = (node_color g)(k := Some c)"
      using pk by (simp add: fun_eq_iff node_color_with_color)
    have p1: "proper ?g1"
      using inv p False Cons.prems(2) by (simp add: proper_with_color)
    have pre1: "bt_pre ?g1 rest"
      unfolding bt_pre_def
      using inv p1 dr rest kr by (auto simp: col1 map_of_with_color)
    from H [OF pre1] obtain ok1 g2 where
      r1: "backtrack colors rest ?g1 = (Inr ok1, g2)" and po1: "bt_post ?g1 rest ok1 g2"
      and ro1: "roomy colors ?g1 rest \<longrightarrow> ok1"
      by blast
    have inv2: "graph_inv g2" and st2: "same_struct g g2"
      using po1 same_struct_trans [OF same_struct_with_color, of g k "Some c" g2]
      by (simp_all add: bt_post_def)
    show ?thesis
    proof (cases ok1)
      case True
      have r: "try_colors colors rest k nc (c # cs) g = (Inr True, g2)"
        using False up r1 True by simp
      have "bt_post g (k # rest) True g2"
        unfolding bt_post_def
        using inv2 st2 po1 True kr by (auto simp: bt_post_def col1)
      with r show ?thesis
        by blast
    next
      case no: False
      let ?g3 = "with_color g2 k None"
      have pk2: "map_of (nodes g2) k \<noteq> None"
        using pk same_struct_keys [OF st2] by blast
      have up2: "update_node g2 k (\<lambda>n. n\<lparr>color := None\<rparr>) = (Inr (), ?g3)"
        using pk2 by (rule update_node_color)
      have col2: "node_color g2 = node_color ?g1"
        using po1 no by (simp add: bt_post_def)
      have col3: "node_color ?g3 = node_color g"
        using pk2 ck by (auto simp: fun_eq_iff node_color_with_color col2 col1)
      have st3: "same_struct g ?g3"
        using st2 same_struct_with_color by (rule same_struct_trans)
      have adj3: "adj ?g3 = adj g"
        using st3 by (simp add: same_struct_def)
      have pre3: "bt_pre ?g3 (k # rest)"
        unfolding bt_pre_def
        using Cons.prems(1) inv2 same_struct_keys [OF st3] proper_cong [OF adj3 col3]
        by (simp add: bt_pre_def col3)
      have nc3: "nc = nbr_colors ?g3 k"
        using Cons.prems(2) nbr_colors_cong [OF adj3 col3] by simp
      from Cons.IH [OF pre3 nc3] obtain ok g' where
        r3: "try_colors colors rest k nc cs ?g3 = (Inr ok, g')"
        and po3: "bt_post ?g3 (k # rest) ok g'"
        by blast
      have r: "try_colors colors rest k nc (c # cs) g = (Inr ok, g')"
        using False up r1 no up2 r3 by simp
      have "bt_post g (k # rest) ok g'"
        using po3 same_struct_trans [OF st3, of g'] unfolding bt_post_def col3 by blast
      moreover have "\<not> roomy colors g rest"
        using ro1 no roomy_cong [OF same_struct_with_color, of colors g k "Some c" rest] by simp
      ultimately show ?thesis
        using r by blast
    qed
  qed
qed

lemma backtrack_spec:
  assumes "bt_pre g ids"
  shows "\<exists>ok g'. backtrack colors ids g = (Inr ok, g') \<and> bt_post g ids ok g' \<and>
      (roomy colors g ids \<longrightarrow> ok)"
  using assms
proof (induction ids arbitrary: g)
  case Nil
  then show ?case
    by (auto simp: bt_post_def bt_pre_def)
next
  case (Cons k rest)
  have inv: "graph_inv g"
    using Cons.prems by (simp add: bt_pre_def)
  have gn: "get_neighbor_colors g k = (Inr (nbr_colors g k), touch g k)"
    using inv by (rule get_neighbor_colors_inv)
  have pre: "bt_pre (touch g k) (k # rest)"
    using Cons.prems by (rule bt_pre_touch)
  have nc: "nbr_colors g k = nbr_colors (touch g k) k"
    by simp
  from try_colors_spec [of rest colors, OF Cons.IH pre nc, of colors] obtain ok g' where
    r: "try_colors colors rest k (nbr_colors g k) colors (touch g k) = (Inr ok, g')"
    and po: "bt_post (touch g k) (k # rest) ok g'"
    and ro: "roomy colors (touch g k) rest \<and> (\<exists>c \<in> set colors. c |\<notin>| nbr_colors g k) \<longrightarrow> ok"
    by blast
  have "backtrack colors (k # rest) g = (Inr ok, g')"
    using gn r by simp
  moreover have "bt_post g (k # rest) ok g'"
    using po by (rule bt_post_touch)
  moreover have "roomy colors g (k # rest) \<longrightarrow> ok"
  proof
    assume a: "roomy colors g (k # rest)"
    then have "\<exists>c \<in> set colors. c |\<notin>| nbr_colors g k"
      by (intro free_color_exists) (simp add: roomy_def)
    moreover have "roomy colors (touch g k) rest"
      using a by (simp add: roomy_def)
    ultimately show ok
      using ro by blast
  qed
  ultimately show ?case
    by blast
qed

section \<open>The whole run of \<open>backtracking_exact\<close>\<close>

lemma degree_less_nodes:
  assumes inv: "graph_inv g" and k: "map_of (nodes g) k \<noteq> None"
  shows "fcard (adj g k) < length (nodes g)"
proof -
  have "fset (adj g k) \<subseteq> set (map fst (nodes g)) - {k}"
  proof
    fix v assume "v \<in> fset (adj g k)"
    then have "v |\<in>| adj g k"
      by simp
    from inv_adj [OF inv this] show "v \<in> set (map fst (nodes g)) - {k}"
      by (auto simp: map_of_eq_None_iff)
  qed
  then have "card (fset (adj g k)) \<le> card (set (map fst (nodes g)) - {k})"
    by (intro card_mono) auto
  also have "\<dots> < card (set (map fst (nodes g)))"
    using k by (intro card_Diff1_less) (auto simp: map_of_eq_None_iff)
  also have "\<dots> = length (nodes g)"
    using distinct_card [OF inv_distinct [OF inv]] by simp
  finally show ?thesis
    by (simp add: fcard.rep_eq)
qed

lemma bt_pre_reset:
  assumes "graph_inv g"
  shows "bt_pre (reset_colors g) (map fst (nodes (reset_colors g)))"
proof -
  have "col_inv (reset_colors g)"
    using assms by simp
  moreover have "distinct (map fst (nodes (reset_colors g)))"
    using inv_distinct [OF assms] by simp
  moreover have "\<forall>k \<in> set (map fst (nodes (reset_colors g))).
      map_of (nodes (reset_colors g)) k \<noteq> None"
    by (metis map_of_eq_None_iff set_map)
  ultimately show ?thesis
    unfolding bt_pre_def col_inv_def by simp
qed

lemma roomy_default:
  assumes "graph_inv g"
  shows "roomy [0 .. int (length (nodes g)) - 1] g (map fst (nodes g))"
  unfolding roomy_def
proof
  fix k assume "k \<in> set (map fst (nodes g))"
  then have "map_of (nodes g) k \<noteq> None"
    by (simp add: map_of_eq_None_iff)
  from degree_less_nodes [OF assms this]
  show "fcard (adj g k) < card (set [0 .. int (length (nodes g)) - 1])"
    by simp
qed

lemma backtracking_exact_spec:
  assumes inv: "graph_inv g"
  shows "\<exists>r g'. backtracking_exact t mc g = (Inr r, g') \<and> graph_inv g' \<and> same_struct g g' \<and>
     ((\<exists>st. r = Stats st \<and> compute_stats ''Backtracking-Exact'' t g' = Inr st \<and> proper g' \<and>
         (\<forall>k. map_of (nodes g') k \<noteq> None \<longrightarrow> node_color g' k \<noteq> None)) \<or>
      (r = ErrorDict ''No solution found with given color limit'' \<and>
         (\<forall>k. node_color g' k = None))) \<and>
     (mc = None \<longrightarrow> (\<exists>st. r = Stats st))"
proof -
  let ?g0 = "reset_colors g"
  let ?m = "case mc of None \<Rightarrow> int (length (nodes ?g0)) | Some m \<Rightarrow> m"
  let ?ids = "map fst (nodes ?g0)"
  from backtrack_spec [OF bt_pre_reset [OF inv], of "[0 .. ?m - 1]"] obtain ok g' where
    r: "backtrack [0 .. ?m - 1] ?ids ?g0 = (Inr ok, g')" and po: "bt_post ?g0 ?ids ok g'"
    and ro: "roomy [0 .. ?m - 1] ?g0 ?ids \<longrightarrow> ok"
    by blast
  have inv': "graph_inv g'" and st0: "same_struct ?g0 g'"
    using po by (simp_all add: bt_post_def)
  have st: "same_struct g g'"
    using same_struct_reset st0 by (rule same_struct_trans)
  have none: "mc = None \<longrightarrow> ok"
  proof
    assume "mc = None"
    then have "roomy [0 .. ?m - 1] ?g0 ?ids"
      using roomy_default [of ?g0] inv by simp
    with ro show ok
      by blast
  qed
  show ?thesis
  proof (cases ok)
    case True
    have p: "proper g'" and all: "\<forall>k \<in> set ?ids. node_color g' k \<noteq> None"
      using po True by (simp_all add: bt_post_def)
    from compute_stats_eq [OF inv', of "''Backtracking-Exact''" t] obtain st' where
      cs: "compute_stats ''Backtracking-Exact'' t g' = Inr st'"
      by blast
    have res: "backtracking_exact t mc g = (Inr (Stats st'), g')"
      unfolding backtracking_exact_def Let_def
      by (simp only: r prod.case sum.case True not_True_eq_False if_False cs)
    have "node_color g' k \<noteq> None" if "map_of (nodes g') k \<noteq> None" for k
    proof -
      from that have "map_of (nodes ?g0) k \<noteq> None"
        using same_struct_keys [OF st0] by blast
      then have "k \<in> set ?ids"
        by (metis map_of_eq_None_iff set_map)
      with all show ?thesis
        by blast
    qed
    with res inv' st cs p show ?thesis
      by blast
  next
    case False
    have res: "backtracking_exact t mc g
        = (Inr (ErrorDict ''No solution found with given color limit''), g')"
      unfolding backtracking_exact_def Let_def
      by (simp only: r prod.case sum.case False not_False_eq_True if_True)
    have "node_color g' k = None" for k
      using po False by (simp add: bt_post_def)
    with res inv' st none False show ?thesis
      by blast
  qed
qed

section \<open>Consequences of a proper, complete colouring\<close>

lemma node_color_entry:
  "distinct (map fst (nodes g)) \<Longrightarrow> (k, n) \<in> set (nodes g) \<Longrightarrow> node_color g k = color n"
  by (simp add: node_color_def)

lemma no_equal_edge:
  assumes inv: "graph_inv g" and p: "proper g"
    and a: "\<forall>k. map_of (nodes g) k \<noteq> None \<longrightarrow> node_color g k \<noteq> None"
  shows "\<forall>(u, v) \<in> set (edges g). node_color g u \<noteq> node_color g v"
proof -
  have "node_color g u \<noteq> node_color g v" if e: "(u, v) \<in> set (edges g)" for u v
  proof
    assume eq: "node_color g u = node_color g v"
    from inv_edge [OF inv e] have adj: "v |\<in>| adj g u" and pu: "map_of (nodes g) u \<noteq> None"
      by simp_all
    with a obtain c where "node_color g u = Some c"
      by blast
    with p adj eq show False
      unfolding proper_def by metis
  qed
  then show ?thesis
    by blast
qed

lemma all_entries_colored:
  assumes "distinct (map fst (nodes g))"
    and "\<forall>k. map_of (nodes g) k \<noteq> None \<longrightarrow> node_color g k \<noteq> None"
  shows "\<forall>(k, n) \<in> set (nodes g). color n \<noteq> None"
proof -
  have "color n \<noteq> None" if e: "(k, n) \<in> set (nodes g)" for k n
  proof -
    from e assms(1) have "map_of (nodes g) k = Some n"
      by simp
    with assms(2) show ?thesis
      by (auto simp: node_color_def)
  qed
  then show ?thesis
    by blast
qed

lemma good_coloring_conflicts:
  assumes "good_coloring g g'"
  shows "count_conflicts g' = Inr 0 \<and> (\<forall>(u, v) \<in> set (edges g'). node_color g' u \<noteq> node_color g' v)"
  using assms count_conflicts_proper [of g'] no_equal_edge [of g']
  unfolding good_coloring_def col_inv_def by blast

lemma degree_le_max_aux:
  "m \<le> fold (\<lambda>(k, n) m. max (degree n) m) xs m \<and>
   (\<forall>(k, n) \<in> set xs. degree n \<le> fold (\<lambda>(k, n) m. max (degree n) m) xs m)"
proof (induction xs arbitrary: m)
  case Nil
  show ?case
    by simp
next
  case (Cons x xs)
  obtain k n where x: "x = (k, n)"
    by (cases x)
  from Cons.IH [of "max (degree n) m"]
  show ?case
    by (auto simp: x)
qed

lemma degree_le_max: "(k, n) \<in> set (nodes g) \<Longrightarrow> degree n \<le> max_degree g"
  using degree_le_max_aux [of 0 "nodes g"] unfolding max_degree_def by blast

lemma max_degree_nonneg: "0 \<le> max_degree g"
  using degree_le_max_aux [of 0 "nodes g"] unfolding max_degree_def by blast

lemma good_coloring_bounded:
  assumes "good_coloring g g'"
  shows "(\<forall>(k, n) \<in> set (nodes g'). \<exists>c. color n = Some c \<and> 0 \<le> c \<and> c \<le> degree n) \<and>
         get_chromatic_number g' \<le> max_degree g' + 1"
proof -
  have inv: "graph_inv g'" and b: "bounded g'"
    and a: "\<forall>k. map_of (nodes g') k \<noteq> None \<longrightarrow> node_color g' k \<noteq> None"
    using assms by (simp_all add: good_coloring_def col_inv_def)
  have d: "distinct (map fst (nodes g'))"
    using inv by (rule inv_distinct)
  have 1: "\<exists>c. color n = Some c \<and> 0 \<le> c \<and> c \<le> degree n" if e: "(k, n) \<in> set (nodes g')" for k n
  proof -
    from e d have m: "map_of (nodes g') k = Some n"
      by simp
    with a obtain c where c: "color n = Some c"
      by (auto simp: node_color_def)
    with b m show ?thesis
      unfolding bounded_def by blast
  qed
  let ?cs = "List.map_filter (\<lambda>(k, n). color n) (nodes g')"
  have "set ?cs \<subseteq> {0 .. max_degree g'}"
  proof
    fix c assume "c \<in> set ?cs"
    then obtain k n where e: "(k, n) \<in> set (nodes g')" and c: "color n = Some c"
      by (auto simp: map_filter_def)
    from 1 [OF e] c degree_le_max [OF e] show "c \<in> {0 .. max_degree g'}"
      by auto
  qed
  then have "card (set ?cs) \<le> card {0 .. max_degree g'}"
    by (intro card_mono) auto
  also have "\<dots> = nat (max_degree g' + 1)"
    by simp
  finally have "get_chromatic_number g' \<le> max_degree g' + 1"
    using max_degree_nonneg [of g']
    by (simp add: get_chromatic_number_def fcard.rep_eq fset_of_list.rep_eq)
  with 1 show ?thesis
    by blast
qed

section \<open>Claims about the result of a run\<close>





lemma fold_max_degree:
  "fold (\<lambda>(k, n) m. max (degree n) m) xs m = fold max (map (\<lambda>(k, n). degree n) xs) m"
  by (induction xs arbitrary: m) (auto simp: case_prod_unfold)

lemma degree_list:
  "distinct (map fst (nodes g)) \<Longrightarrow>
     map (\<lambda>(k, n). degree n) (nodes g) = map (\<lambda>k. the (degree_of g k)) (map fst (nodes g))"
  by (auto simp: degree_of_def)

lemma max_degree_same:
  assumes "same_struct g g'" and "graph_inv g" and "graph_inv g'"
  shows "max_degree g' = max_degree g"
  using assms degree_list [OF inv_distinct [OF assms(2)]] degree_list [OF inv_distinct [OF assms(3)]]
  unfolding max_degree_def fold_max_degree same_struct_def by metis

text \<open>
  Claim C10. After a run of Greedy, Welsh-Powell or DSATUR on a consistent graph every
  node has a colour between 0 and its degree, and the number of colours used is at most
  the maximum degree plus one.
\<close>

theorem heuristic_colors_bounded_by_degree:
  assumes "graph_inv g"
  shows "(\<exists>st g'. greedy_coloring t g = (Inr st, g') \<and>
            (\<forall>(k, n) \<in> set (nodes g'). \<exists>c. color n = Some c \<and> 0 \<le> c \<and> c \<le> degree n) \<and>
            chromatic_number st \<le> max_degree g + 1 \<and> max_degree g' = max_degree g) \<and>
         (\<exists>st g'. welsh_powell t g = (Inr st, g') \<and>
            (\<forall>(k, n) \<in> set (nodes g'). \<exists>c. color n = Some c \<and> 0 \<le> c \<and> c \<le> degree n) \<and>
            chromatic_number st \<le> max_degree g + 1 \<and> max_degree g' = max_degree g) \<and>
         (\<exists>st g'. dsatur rank t g = (Inr st, g') \<and>
            (\<forall>(k, n) \<in> set (nodes g'). \<exists>c. color n = Some c \<and> 0 \<le> c \<and> c \<le> degree n) \<and>
            chromatic_number st \<le> max_degree g + 1 \<and> max_degree g' = max_degree g)"
proof -
  have fin: "(\<forall>(k, n) \<in> set (nodes g'). \<exists>c. color n = Some c \<and> 0 \<le> c \<and> c \<le> degree n) \<and>
      chromatic_number st \<le> max_degree g + 1 \<and> max_degree g' = max_degree g"
    if gc: "good_coloring g g'" and cs: "compute_stats alg t g' = Inr st" for alg st g'
  proof -
    have "max_degree g' = max_degree g"
      using gc assms by (intro max_degree_same) (simp_all add: good_coloring_def col_inv_def)
    moreover have "chromatic_number st = get_chromatic_number g'"
      using compute_stats_good [OF gc, of alg t] cs by auto
    ultimately show ?thesis
      using good_coloring_bounded [OF gc] by simp
  qed
  show ?thesis
    using greedy_good [OF assms, of t] welsh_powell_good [OF assms, of t]
      dsatur_good [OF assms, of rank t] fin
    by (intro conjI) blast+
qed

theorem heuristic_colors_bounded_by_degree_witness:
  "graph_inv triangle \<and> max_degree triangle = 2 \<and>
   map (\<lambda>(k, n). (color n, degree n)) (nodes (snd (greedy_coloring 0 triangle)))
     = [(Some 0, 2), (Some 1, 2), (Some 2, 2)] \<and>
   chromatic_number (projr (fst (greedy_coloring 0 triangle))) \<le> max_degree triangle + 1 \<and>
   chromatic_number (projr (fst (welsh_powell 0 triangle))) \<le> max_degree triangle + 1 \<and>
   chromatic_number (projr (fst (dsatur hash_rank 0 triangle))) \<le> max_degree triangle + 1"
proof -
  have inv: "graph_inv triangle"
    by code_simp
  have m: "max_degree triangle = 2"
    by code_simp
  have c: "map (\<lambda>(k, n). (color n, degree n)) (nodes (snd (greedy_coloring 0 triangle)))
     = [(Some 0, 2), (Some 1, 2), (Some 2, 2)]"
    by code_simp
  from heuristic_colors_bounded_by_degree [OF inv, of 0 hash_rank] inv m c show ?thesis
    by auto
qed

section \<open>Claims about pre-assigned colours, the neighbour colours and the statistics\<close>

lemma reset_map_entry_color:
  "map (\<lambda>(k, n). (k, n\<lparr>color := None, saturation := 0\<rparr>)) (AList.map_entry x (\<lambda>n. n\<lparr>color := c\<rparr>) xs)
     = map (\<lambda>(k, n). (k, n\<lparr>color := None, saturation := 0\<rparr>)) xs"
  by (induction xs) auto

lemma reset_pre_assign: "reset_colors (pre_assign g k c) = reset_colors g"
  by (auto simp: pre_assign_def update_node_def reset_colors_def reset_map_entry_color
      split: option.splits)

text \<open>
  Claim C2, as amended. Every algorithm starts with \<open>reset_colors\<close>, so a colour the
  caller assigned before the run is discarded: the run returns the same statistics and
  leaves the same graph as on the graph without that assignment.
\<close>

theorem pre_assigned_colors_are_discarded:
  "greedy_coloring t (pre_assign g k c) = greedy_coloring t g \<and>
   welsh_powell t (pre_assign g k c) = welsh_powell t g \<and>
   dsatur rank t (pre_assign g k c) = dsatur rank t g \<and>
   backtracking_exact t mc (pre_assign g k c) = backtracking_exact t mc g"
  by (simp add: greedy_coloring_def welsh_powell_def dsatur_def backtracking_exact_def
      reset_pre_assign)

theorem pre_assigned_colors_are_discarded_witness:
  "greedy_coloring 0 one_node_colored_5 = greedy_coloring 0 (build [AddNode 0 (0, 0)]) \<and>
   node_color one_node_colored_5 0 = Some 5 \<and>
   node_color (build [AddNode 0 (0, 0)]) 0 = None"
proof -
  have "node_color one_node_colored_5 0 = Some 5"
    by code_simp
  moreover have "node_color (build [AddNode 0 (0, 0)]) 0 = None"
    by code_simp
  ultimately show ?thesis
    using pre_assigned_colors_are_discarded [of 0 "build [AddNode 0 (0, 0)]" 0 "Some 5"]
    by (simp add: one_node_colored_5_def)
qed

text \<open>
  The claim as stated fails: the node pre-assigned colour 5 ends with colour 0 under
  each of the four algorithms.
\<close>

theorem pre_assigned_color_overwritten:
  "node_color one_node_colored_5 0 = Some 5 \<and>
   node_color (snd (greedy_coloring 0 one_node_colored_5)) 0 = Some 0 \<and>
   node_color (snd (welsh_powell 0 one_node_colored_5)) 0 = Some 0 \<and>
   node_color (snd (dsatur hash_rank 0 one_node_colored_5)) 0 = Some 0 \<and>
   node_color (snd (backtracking_exact 0 None one_node_colored_5)) 0 = Some 0"
  by code_simp

text \<open>
  Claim C8, as amended. On a consistent graph \<open>get_neighbor_colors(id)\<close> returns exactly
  the colours of the coloured neighbours of \<open>id\<close>. On every graph it leaves \<open>nodes\<close> (with
  every node field) and \<open>edges\<close> as they were; the adjacency index keeps all its entries,
  and gains the entry \<open>id: set()\<close> when \<open>id\<close> had none, so every neighbour set read
  through the index is unchanged.
\<close>

theorem neighbor_colors_result_and_frame:
  "(graph_inv g \<longrightarrow>
      (\<exists>cs. fst (get_neighbor_colors g k) = Inr cs \<and>
         (\<forall>c. c |\<in>| cs \<longleftrightarrow> (\<exists>v. v |\<in>| adj g k \<and> node_color g v = Some c)))) \<and>
   nodes (snd (get_neighbor_colors g k)) = nodes g \<and>
   edges (snd (get_neighbor_colors g k)) = edges g \<and>
   adjacency (snd (get_neighbor_colors g k))
     = (if k \<in> fst ` set (adjacency g) then adjacency g else adjacency g @ [(k, {||})]) \<and>
   adj (snd (get_neighbor_colors g k)) = adj g"
proof -
  have s: "snd (get_neighbor_colors g k) = touch g k"
    by (simp add: get_neighbor_colors_def touch_def split: prod.splits)
  have a: "adjacency (touch g k)
     = (if k \<in> fst ` set (adjacency g) then adjacency g else adjacency g @ [(k, {||})])"
  proof (cases "map_of (adjacency g) k")
    case None
    then have "k \<notin> fst ` set (adjacency g)"
      by (simp add: map_of_eq_None_iff)
    with None show ?thesis
      by (simp add: touch_def dd_get_def)
  next
    case (Some s)
    then have "k \<in> fst ` set (adjacency g)"
      by (metis map_of_eq_None_iff option.distinct(1))
    with Some show ?thesis
      by (simp add: touch_def dd_get_def)
  qed
  have "\<exists>cs. fst (get_neighbor_colors g k) = Inr cs \<and>
         (\<forall>c. c |\<in>| cs \<longleftrightarrow> (\<exists>v. v |\<in>| adj g k \<and> node_color g v = Some c))"
    if "graph_inv g"
    using get_neighbor_colors_inv [OF that, of k] nbr_colors_iff [of _ g k] by simp
  with s a show ?thesis
    by simp
qed

theorem neighbor_colors_result_and_frame_witness:
  "graph_inv path2_colored \<and>
   fst (get_neighbor_colors path2_colored 0) = Inr {|3|} \<and>
   adj path2_colored 0 = {|1|} \<and> node_color path2_colored 1 = Some 3 \<and>
   adjacency (snd (get_neighbor_colors path2_colored 0)) = adjacency path2_colored"
proof -
  have inv: "graph_inv path2_colored"
    by code_simp
  have 1: "fst (get_neighbor_colors path2_colored 0) = Inr {|3|}"
    by code_simp
  have 2: "adj path2_colored 0 = {|1|}" "node_color path2_colored 1 = Some 3"
    by code_simp+
  have 3: "0 \<in> fst ` set (adjacency path2_colored)"
    by code_simp
  from neighbor_colors_result_and_frame [of path2_colored 0] inv 1 2 3 show ?thesis
    by simp
qed

text \<open>
  The claim as stated fails: on a graph with the single node 0 and no edge, the call
  \<open>get_neighbor_colors(0)\<close> changes the adjacency index from empty to \<open>{0: set()}\<close>.
\<close>

theorem neighbor_colors_inserts_key:
  "adjacency (build [AddNode 0 (0, 0)]) = [] \<and>
   adjacency (snd (get_neighbor_colors (build [AddNode 0 (0, 0)]) 0)) = [(0, {||})] \<and>
   snd (get_neighbor_colors (build [AddNode 0 (0, 0)]) 0) \<noteq> build [AddNode 0 (0, 0)]"
proof -
  have 1: "adjacency (build [AddNode 0 (0, 0)]) = []"
    by code_simp
  have 2: "adjacency (snd (get_neighbor_colors (build [AddNode 0 (0, 0)]) 0)) = [(0, {||})]"
    by code_simp
  from 1 2 have "snd (get_neighbor_colors (build [AddNode 0 (0, 0)]) 0) \<noteq> build [AddNode 0 (0, 0)]"
    by (metis list.distinct(1))
  with 1 2 show ?thesis
    by blast
qed

section \<open>The statistics record\<close>

lemma set_map_filter: "set (List.map_filter f xs) = {y. \<exists>x \<in> set xs. f x = Some y}"
  by (auto simp: map_filter_def intro: rev_image_eqI)

lemma chromatic_number_card:
  "get_chromatic_number g = int (card {c. \<exists>(k, n) \<in> set (nodes g). color n = Some c})"
proof -
  have "{y. \<exists>x \<in> set (nodes g). (case x of (k, n) \<Rightarrow> color n) = Some y}
      = {c. \<exists>(k, n) \<in> set (nodes g). color n = Some c}"
    by (simp add: case_prod_unfold)
  then show ?thesis
    by (simp add: get_chromatic_number_def fcard.rep_eq fset_of_list.rep_eq set_map_filter)
qed

lemma conflict_filter:
  "filter (conflict g) es
     = filter (\<lambda>(u, v). node_color g u \<noteq> None \<and> node_color g u = node_color g v) es"
proof -
  have "conflict g = (\<lambda>(u, v). node_color g u \<noteq> None \<and> node_color g u = node_color g v)"
    unfolding conflict_def case_prod_unfold ..
  then show ?thesis
    by (simp only:)
qed




section \<open>The complete graph\<close>

lemma add_edge_keys [simp]: "map fst (nodes (snd (add_edge g u v))) = map fst (nodes g)"
  by (simp add: add_edge_def split: prod.splits)

lemma add_edge_adj:
  assumes inv: "graph_inv g"
  shows "adj (snd (add_edge g u v)) x =
     (if map_of (nodes g) u \<noteq> None \<and> map_of (nodes g) v \<noteq> None \<and> u \<noteq> v
      then (if x = u then finsert v (adj g u) else if x = v then finsert u (adj g v) else adj g x)
      else adj g x)"
proof -
  consider "map_of (nodes g) u = None \<or> map_of (nodes g) v = None"
    | "map_of (nodes g) u \<noteq> None" "map_of (nodes g) v \<noteq> None" "u = v"
    | "map_of (nodes g) u \<noteq> None" "map_of (nodes g) v \<noteq> None" "u \<noteq> v" "v |\<in>| adj g u"
    | "map_of (nodes g) u \<noteq> None" "map_of (nodes g) v \<noteq> None" "u \<noteq> v" "v |\<notin>| adj g u"
    by blast
  then show ?thesis
  proof cases
    case 1
    then show ?thesis
      using add_edge_raise [of g u v] by auto
  next
    case 2
    then show ?thesis
      using add_edge_self [of g u] by simp
  next
    case 3
    have "u |\<in>| adj g v"
      using inv 3(4) inv_adj by blast
    then have "finsert v (adj g u) = adj g u" "finsert u (adj g v) = adj g v"
      using 3(4) by auto
    then show ?thesis
      using add_edge_present [OF 3] by simp
  next
    case 4
    have "adj (snd (add_edge g u v)) x = (if x = u then finsert v (adj g u)
      else if x = v then finsert u (adj g v) else adj g x)"
      using 4(3) unfolding add_edge_new [OF 4]
      by (auto simp: adj_def map_of_dd_add map_of_dd_get split: option.splits)
    then show ?thesis
      using 4 by simp
  qed
qed

lemma apply_op_edge_mono:
  assumes "graph_inv g" and "y |\<in>| adj g x"
  shows "y |\<in>| adj (apply_op (AddEdge u v) g) x"
  using assms add_edge_adj [OF assms(1), of u v x] by auto

lemma fold_edges:
  assumes "graph_inv g" and "\<forall>op \<in> set ops. \<exists>u v. op = AddEdge u v"
  shows "map fst (nodes (fold apply_op ops g)) = map fst (nodes g) \<and>
     (\<forall>x y. y |\<in>| adj g x \<longrightarrow> y |\<in>| adj (fold apply_op ops g) x) \<and>
     (\<forall>u v. AddEdge u v \<in> set ops \<longrightarrow> u \<noteq> v \<longrightarrow> map_of (nodes g) u \<noteq> None \<longrightarrow>
        map_of (nodes g) v \<noteq> None \<longrightarrow> v |\<in>| adj (fold apply_op ops g) u)"
  using assms
proof (induction ops arbitrary: g)
  case Nil
  then show ?case
    by simp
next
  case (Cons op ops)
  from Cons.prems(2) obtain a b where op: "op = AddEdge a b"
    by auto
  let ?g1 = "apply_op op g"
  have inv1: "graph_inv ?g1"
    using Cons.prems(1) by (rule graph_inv_apply_op)
  have k1: "map fst (nodes ?g1) = map fst (nodes g)"
    by (simp add: op)
  have p1: "map_of (nodes ?g1) x \<noteq> None \<longleftrightarrow> map_of (nodes g) x \<noteq> None" for x
    using k1 by (metis map_of_eq_None_iff set_map)
  have m1: "y |\<in>| adj g x \<Longrightarrow> y |\<in>| adj ?g1 x" for x y
    unfolding op using Cons.prems(1) by (rule apply_op_edge_mono)
  have a1: "b |\<in>| adj ?g1 a" if "a \<noteq> b" "map_of (nodes g) a \<noteq> None" "map_of (nodes g) b \<noteq> None"
    using that add_edge_adj [OF Cons.prems(1), of a b a] by (simp add: op)
  from Cons.IH [OF inv1] Cons.prems(2) have
    IH1: "map fst (nodes (fold apply_op ops ?g1)) = map fst (nodes ?g1)"
    and IH2: "\<And>x y. y |\<in>| adj ?g1 x \<Longrightarrow> y |\<in>| adj (fold apply_op ops ?g1) x"
    and IH3: "\<And>u v. AddEdge u v \<in> set ops \<Longrightarrow> u \<noteq> v \<Longrightarrow> map_of (nodes ?g1) u \<noteq> None \<Longrightarrow>
        map_of (nodes ?g1) v \<noteq> None \<Longrightarrow> v |\<in>| adj (fold apply_op ops ?g1) u"
    by simp_all
  show ?case
  proof (intro conjI allI impI)
    show "map fst (nodes (fold apply_op (op # ops) g)) = map fst (nodes g)"
      using IH1 k1 by simp
  next
    fix x y assume "y |\<in>| adj g x"
    then show "y |\<in>| adj (fold apply_op (op # ops) g) x"
      using m1 IH2 by simp
  next
    fix u v assume h: "AddEdge u v \<in> set (op # ops)" "u \<noteq> v" "map_of (nodes g) u \<noteq> None"
      "map_of (nodes g) v \<noteq> None"
    show "v |\<in>| adj (fold apply_op (op # ops) g) u"
    proof (cases "AddEdge u v = op")
      case True
      then have "u = a" "v = b"
        using op by simp_all
      with h a1 have "v |\<in>| adj ?g1 u"
        by simp
      then show ?thesis
        using IH2 by simp
    next
      case False
      with h(1) have "AddEdge u v \<in> set ops"
        by auto
      from IH3 [OF this h(2)] h(3,4) p1 show ?thesis
        by simp
    qed
  qed
qed

lemma fold_add_nodes:
  "fold apply_op (map (\<lambda>i. AddNode (int i) (0, 0)) [0 ..< n]) empty_graph
     = \<lparr>nodes = map (\<lambda>i. (int i, new_node (int i) (0, 0))) [0 ..< n], edges = [], adjacency = []\<rparr>"
proof (induction n)
  case 0
  show ?case
    by (simp add: empty_graph_def)
next
  case (Suc n)
  have "map_of (map (\<lambda>i. (int i, new_node (int i) (0, 0))) [0 ..< n]) (int n) = None"
    by (auto simp: map_of_eq_None_iff)
  with Suc show ?case
    by (simp add: add_node_def)
qed

lemma complete_graph_props:
  "graph_inv (complete_graph n) \<and> map fst (nodes (complete_graph n)) = map int [0 ..< n] \<and>
   (\<forall>u v. map_of (nodes (complete_graph n)) u \<noteq> None \<longrightarrow>
      map_of (nodes (complete_graph n)) v \<noteq> None \<longrightarrow> u \<noteq> v \<longrightarrow> v |\<in>| adj (complete_graph n) u)"
proof -
  let ?ns = "map (\<lambda>i. AddNode (int i) (0, 0)) [0 ..< n]"
  let ?es = "concat (map (\<lambda>i. map (\<lambda>j. AddEdge (int i) (int j)) [Suc i ..< n]) [0 ..< n])"
  let ?g0 = "fold apply_op ?ns empty_graph"
  have cg: "complete_graph n = fold apply_op ?es ?g0"
    by (simp add: complete_graph_def complete_graph_ops_def build_def)
  have inv: "graph_inv (complete_graph n)"
    unfolding complete_graph_def by (rule graph_inv_build)
  have inv0: "graph_inv ?g0"
    by (rule graph_inv_fold [OF graph_inv_empty])
  have k0: "map fst (nodes ?g0) = map int [0 ..< n]"
    by (simp add: fold_add_nodes comp_def)
  have es: "\<forall>op \<in> set ?es. \<exists>u v. op = AddEdge u v"
    by auto
  from fold_edges [OF inv0 es] have
    k: "map fst (nodes (complete_graph n)) = map fst (nodes ?g0)"
    and e: "\<And>u v. AddEdge u v \<in> set ?es \<Longrightarrow> u \<noteq> v \<Longrightarrow> map_of (nodes ?g0) u \<noteq> None \<Longrightarrow>
        map_of (nodes ?g0) v \<noteq> None \<Longrightarrow> v |\<in>| adj (complete_graph n) u"
    unfolding cg by blast+
  have pres: "map_of (nodes (complete_graph n)) u \<noteq> None \<longleftrightarrow> (\<exists>i < n. u = int i)" for u
  proof -
    have "map_of (nodes (complete_graph n)) u \<noteq> None \<longleftrightarrow> u \<in> set (map fst (nodes (complete_graph n)))"
      by (metis map_of_eq_None_iff set_map)
    then show ?thesis
      unfolding k k0 by auto
  qed
  have pres0: "map_of (nodes ?g0) u \<noteq> None \<longleftrightarrow> (\<exists>i < n. u = int i)" for u
  proof -
    have "map_of (nodes ?g0) u \<noteq> None \<longleftrightarrow> u \<in> set (map fst (nodes ?g0))"
      by (metis map_of_eq_None_iff set_map)
    then show ?thesis
      unfolding k0 by auto
  qed
  have lt: "int j |\<in>| adj (complete_graph n) (int i)" if "i < j" "j < n" for i j
  proof -
    have "AddEdge (int i) (int j) \<in> set (map (\<lambda>j. AddEdge (int i) (int j)) [Suc i ..< n])"
      using that by simp
    moreover have "map (\<lambda>j. AddEdge (int i) (int j)) [Suc i ..< n]
        \<in> set (map (\<lambda>i. map (\<lambda>j. AddEdge (int i) (int j)) [Suc i ..< n]) [0 ..< n])"
      unfolding set_map by (rule image_eqI [where x = i]) (use that in simp_all)
    ultimately have "AddEdge (int i) (int j) \<in> set ?es"
      unfolding set_concat by (rule UN_I [rotated])
    moreover have "int i \<noteq> int j"
      using that by simp
    moreover have "map_of (nodes ?g0) (int i) \<noteq> None" "map_of (nodes ?g0) (int j) \<noteq> None"
      unfolding pres0 using that by auto
    ultimately show ?thesis
      by (rule e)
  qed
  have "v |\<in>| adj (complete_graph n) u"
    if "map_of (nodes (complete_graph n)) u \<noteq> None" "map_of (nodes (complete_graph n)) v \<noteq> None"
      "u \<noteq> v" for u v
  proof -
    from that obtain i j where ij: "i < n" "u = int i" "j < n" "v = int j" "i \<noteq> j"
      unfolding pres by auto
    show ?thesis
    proof (cases "i < j")
      case True
      then show ?thesis
        using lt ij by simp
    next
      case False
      with ij have "j < i"
        by simp
      then have "int i |\<in>| adj (complete_graph n) (int j)"
        using lt ij by simp
      then show ?thesis
        using inv inv_adj ij by blast
    qed
  qed
  with inv k k0 show ?thesis
    by simp
qed

section \<open>Complete graphs need one colour per node\<close>

lemma map_filter_all_Some:
  "\<forall>x \<in> set xs. f x \<noteq> None \<Longrightarrow> List.map_filter f xs = map (\<lambda>x. the (f x)) xs"
  by (induction xs) (auto simp: map_filter_simps)

lemma complete_chromatic:
  assumes inv: "graph_inv g" and p: "proper g"
    and a: "\<forall>k. map_of (nodes g) k \<noteq> None \<longrightarrow> node_color g k \<noteq> None"
    and c: "\<forall>u v. map_of (nodes g) u \<noteq> None \<longrightarrow> map_of (nodes g) v \<noteq> None \<longrightarrow> u \<noteq> v
       \<longrightarrow> v |\<in>| adj g u"
  shows "get_chromatic_number g = int (length (nodes g))"
proof -
  let ?f = "\<lambda>(k, n). color n"
  let ?h = "\<lambda>x. the (?f x)"
  have d: "distinct (map fst (nodes g))"
    using inv by (rule inv_distinct)
  have m: "map_of (nodes g) k = Some n" if "(k, n) \<in> set (nodes g)" for k n
    using that d by simp
  have col: "node_color g k = color n \<and> color n \<noteq> None" if "(k, n) \<in> set (nodes g)" for k n
    using m [OF that] a by (auto simp: node_color_def)
  have all: "\<forall>x \<in> set (nodes g). ?f x \<noteq> None"
    using col by auto
  have inj: "inj_on ?h (set (nodes g))"
  proof (rule inj_onI)
    fix x y assume x: "x \<in> set (nodes g)" and y: "y \<in> set (nodes g)" and e: "?h x = ?h y"
    obtain k1 n1 k2 n2 where xy: "x = (k1, n1)" "y = (k2, n2)"
      by (cases x, cases y) auto
    from col [of k1 n1] col [of k2 n2] x y xy e
    have c1: "node_color g k1 = color n1" and c2: "node_color g k2 = color n2"
      and eq: "color n1 = color n2" and ne: "color n1 \<noteq> None"
      by auto
    have "k1 = k2"
    proof (rule ccontr)
      assume "k1 \<noteq> k2"
      moreover have "map_of (nodes g) k1 \<noteq> None" "map_of (nodes g) k2 \<noteq> None"
        using m x y xy by auto
      ultimately have "k2 |\<in>| adj g k1"
        using c by blast
      with p c1 c2 eq ne show False
        unfolding proper_def by (metis not_None_eq)
    qed
    with m [of k1 n1] m [of k2 n2] x y xy show "x = y"
      by simp
  qed
  have "distinct (nodes g)"
    using d by (simp add: distinct_map)
  with inj have "distinct (map ?h (nodes g))"
    by (simp add: distinct_map)
  then have "card (set (map ?h (nodes g))) = length (nodes g)"
    using distinct_card by fastforce
  then show ?thesis
    unfolding get_chromatic_number_def map_filter_all_Some [OF all]
    by (simp only: fcard.rep_eq fset_of_list.rep_eq)
qed

lemma complete_graph_stats:
  assumes inv: "graph_inv g'" and p: "proper g'"
    and a: "\<forall>k. map_of (nodes g') k \<noteq> None \<longrightarrow> node_color g' k \<noteq> None"
    and s: "same_struct (complete_graph n) g'" and cs: "compute_stats alg t g' = Inr st"
  shows "chromatic_number st = int n \<and> conflicts st = 0"
proof -
  have k: "map fst (nodes g') = map int [0 ..< n]" and adj: "adj g' = adj (complete_graph n)"
    using s complete_graph_props [of n] by (simp_all add: same_struct_def)
  have "length (map fst (nodes g')) = n"
    unfolding k by simp
  then have len: "length (nodes g') = n"
    by simp
  have c: "\<forall>u v. map_of (nodes g') u \<noteq> None \<longrightarrow> map_of (nodes g') v \<noteq> None \<longrightarrow> u \<noteq> v
       \<longrightarrow> v |\<in>| adj g' u"
    using complete_graph_props [of n] same_struct_keys [OF s] unfolding adj by blast
  from complete_chromatic [OF inv p a c] len have "get_chromatic_number g' = int n"
    by simp
  then show ?thesis
    using cs compute_stats_eq [OF inv, of alg t] no_conflict_proper [OF inv p] by auto
qed



section \<open>The order in which DSATUR selects the nodes\<close>

lemma dsatur_seed_first:
  assumes inv: "graph_inv g"
    and ne: "fset_of_list (map fst (nodes (reset_colors g))) \<noteq> {||}"
  shows "\<exists>s g1. select_first rank (reset_colors g) (fset_of_list (map fst (nodes (reset_colors g)))) = Inr s \<and>
     dsatur_seed rank (fset_of_list (map fst (nodes (reset_colors g)))) (reset_colors g)
       = (Inr (fset_of_list (map fst (nodes (reset_colors g))) |-| {|s|}), g1) \<and>
     node_color g1 = (\<lambda>k. if k = s then Some 0 else None)"
proof -
  let ?g0 = "reset_colors g"
  let ?unc = "fset_of_list (map fst (nodes ?g0))"
  have inv0: "graph_inv ?g0" and c0: "col_inv ?g0"
    using inv by simp_all
  have pres: "k |\<in>| ?unc \<longleftrightarrow> map_of (nodes ?g0) k \<noteq> None" for k
    by (metis fset_of_list_elem map_of_eq_None_iff set_map)
  from select_first_spec [OF inv0 ne] pres obtain s pre post where
    sel: "select_first rank ?g0 ?unc = Inr s" and l: "iter_set rank ?unc = pre @ s # post"
    by blast
  have "s \<in> set (iter_set rank ?unc)"
    using l by simp
  then have s: "s |\<in>| ?unc"
    by simp
  then have ps: "map_of (nodes ?g0) s \<noteq> None"
    using pres by blast
  let ?g1 = "with_color ?g0 s (Some 0)"
  let ?unc' = "?unc |-| {|s|}"
  have up: "update_node ?g0 s (\<lambda>n. n\<lparr>color := Some 0\<rparr>) = (Inr (), ?g1)"
    using ps by (rule update_node_color)
  have rm: "set_remove ?unc s = Inr ?unc'"
    using s by (simp add: set_remove_def del: reset_colors_simps)
  have nb0: "nbr_colors ?g0 k = {||}" for k
    by (rule nbr_colors_empty) simp
  have c1: "col_inv ?g1"
    using c0 proper_with_color [of ?g0 0 s] bounded_with_color [of ?g0 0 s]
    by (simp add: col_inv_def nb0)
  have ct: "col_inv (touch ?g1 s)"
    using c1 by simp
  have "\<forall>x \<in> set (iter_set rank (adj ?g1 s)). map_of (nodes (touch ?g1 s)) x \<noteq> None"
    using c1 inv_adj [of ?g1 _ s] by (simp add: col_inv_def)
  from for_each_bump [OF ct this distinct_iter_set, of ?unc'] obtain g2 where
    fe: "for_each (bump_saturation ?unc') (iter_set rank (adj ?g1 s)) (touch ?g1 s) = (Inr (), g2)"
    and n2: "node_color g2 = node_color (touch ?g1 s)"
    by blast
  from dd_get_ex [of ?g1 s] obtain a where
    dd: "dd_get (adjacency ?g1) s = (adj ?g1 s, a)" and ta: "?g1\<lparr>adjacency := a\<rparr> = touch ?g1 s"
    by blast
  have res: "dsatur_seed rank ?unc ?g0 = (Inr ?unc', g2)"
    unfolding dsatur_seed_def
    by (simp only: ne if_False sel sum.case up prod.case rm dd ta fe)
  have col2: "node_color g2 k = (if k = s then Some 0 else None)" for k
    using ps by (simp add: n2 node_color_with_color)
  then have "node_color g2 = (\<lambda>k. if k = s then Some 0 else None)"
    by (simp add: fun_eq_iff)
  with sel res show ?thesis
    by blast
qed

lemma degree_key:
  assumes "graph_inv g" and "map_of (nodes g) k \<noteq> None"
  shows "node_field g degree k = Inr (int (fcard (adj g k)))"
proof -
  from assms(2) obtain n where n: "map_of (nodes g) k = Some n"
    by blast
  with inv_node [OF assms(1) n] show ?thesis
    by (simp add: node_field_present)
qed

lemma saturation_degree_key:
  assumes "dsatur_inv g0 unc g" and "k |\<in>| unc"
  shows "node_field g (\<lambda>n. (saturation n, degree n)) k
     = Inr (int (fcard (nbr_colors g k)), int (fcard (adj g k)))"
proof -
  have ginv: "graph_inv g"
    using assms(1) by (simp add: dsatur_inv_def col_inv_def)
  from assms obtain n where n: "map_of (nodes g) k = Some n"
    unfolding dsatur_inv_def by blast
  from assms have "saturation_of g k = Some (int (fcard (nbr_colors g k)))"
    unfolding dsatur_inv_def by blast
  with n have "saturation n = int (fcard (nbr_colors g k))"
    by (simp add: saturation_of_def)
  with inv_node [OF ginv n] n show ?thesis
    by (simp add: node_field_present)
qed

lemma seed_selection:
  assumes inv: "graph_inv g"
    and ne: "fset_of_list (map fst (nodes (reset_colors g))) \<noteq> {||}"
  shows "\<exists>s pre post g1 ds.
     select_first rank (reset_colors g) (fset_of_list (map fst (nodes (reset_colors g)))) = Inr s \<and>
     dsatur_seed rank (fset_of_list (map fst (nodes (reset_colors g)))) (reset_colors g)
       = (Inr (fset_of_list (map fst (nodes (reset_colors g))) |-| {|s|}), g1) \<and>
     node_color g1 = (\<lambda>k. if k = s then Some 0 else None) \<and>
     iter_set rank (fset_of_list (map fst (nodes (reset_colors g)))) = pre @ s # post \<and>
     node_field (reset_colors g) degree s = Inr ds \<and>
     (\<forall>y \<in> set pre. \<exists>dy. node_field (reset_colors g) degree y = Inr dy \<and> dy < ds) \<and>
     (\<forall>y \<in> set post. \<exists>dy. node_field (reset_colors g) degree y = Inr dy \<and> dy \<le> ds)"
proof -
  let ?g0 = "reset_colors g"
  let ?unc = "fset_of_list (map fst (nodes ?g0))"
  have inv0: "graph_inv ?g0"
    using inv by simp
  have pres: "k |\<in>| ?unc \<longleftrightarrow> map_of (nodes ?g0) k \<noteq> None" for k
    by (metis fset_of_list_elem map_of_eq_None_iff set_map)
  from dsatur_seed_first [OF inv ne, of rank] obtain s g1 where
    sel: "select_first rank ?g0 ?unc = Inr s"
    and seed: "dsatur_seed rank ?unc ?g0 = (Inr (?unc |-| {|s|}), g1)"
    and col: "node_color g1 = (\<lambda>k. if k = s then Some 0 else None)"
    by blast
  from select_first_spec [OF inv0 ne, of rank] pres sel obtain pre post where
    l: "iter_set rank ?unc = pre @ s # post"
    and lt: "\<forall>y \<in> set pre. fcard (adj ?g0 y) < fcard (adj ?g0 s)"
    and le: "\<forall>y \<in> set post. fcard (adj ?g0 y) \<le> fcard (adj ?g0 s)"
    by auto
  have key: "node_field ?g0 degree y = Inr (int (fcard (adj ?g0 y)))"
    if "y \<in> set (iter_set rank ?unc)" for y
  proof -
    from that have "y |\<in>| ?unc"
      by simp
    then have "map_of (nodes ?g0) y \<noteq> None"
      using pres by blast
    with inv0 show ?thesis
      by (rule degree_key)
  qed
  have ks: "node_field ?g0 degree s = Inr (int (fcard (adj ?g0 s)))"
    by (rule key) (simp only: l, simp)
  have kpre: "\<forall>y \<in> set pre. \<exists>dy. node_field ?g0 degree y = Inr dy \<and> dy < int (fcard (adj ?g0 s))"
  proof
    fix y assume y: "y \<in> set pre"
    then have "y \<in> set (iter_set rank ?unc)"
      by (simp only: l, simp)
    from key [OF this] lt y show "\<exists>dy. node_field ?g0 degree y = Inr dy \<and> dy < int (fcard (adj ?g0 s))"
      by auto
  qed
  have kpost: "\<forall>y \<in> set post. \<exists>dy. node_field ?g0 degree y = Inr dy \<and> dy \<le> int (fcard (adj ?g0 s))"
  proof
    fix y assume y: "y \<in> set post"
    then have "y \<in> set (iter_set rank ?unc)"
      by (simp only: l, simp)
    from key [OF this] le y show "\<exists>dy. node_field ?g0 degree y = Inr dy \<and> dy \<le> int (fcard (adj ?g0 s))"
      by auto
  qed
  from sel seed col l ks kpre kpost show ?thesis
    by blast
qed

lemma next_selection:
  assumes inv: "dsatur_inv g0 unc g" and ne: "unc \<noteq> {||}"
  shows "\<exists>s pre post g' ks.
     select_next rank g unc = Inr s \<and>
     dsatur_step rank unc g = (Inr (unc |-| {|s|}), g') \<and>
     node_color g' = (node_color g)(s := Some (get_smallest_available_color (nbr_colors g s))) \<and>
     iter_set rank unc = pre @ s # post \<and>
     node_field g (\<lambda>n. (saturation n, degree n)) s = Inr ks \<and>
     (\<forall>y \<in> set pre. \<exists>ky. node_field g (\<lambda>n. (saturation n, degree n)) y = Inr ky \<and> tuple_gt ks ky) \<and>
     (\<forall>y \<in> set post. \<exists>ky. node_field g (\<lambda>n. (saturation n, degree n)) y = Inr ky \<and> \<not> tuple_gt ky ks)"
proof -
  let ?k = "\<lambda>k. (int (fcard (nbr_colors g k)), int (fcard (adj g k)))"
  let ?f = "node_field g (\<lambda>n. (saturation n, degree n))"
  from dsatur_step_spec [OF inv ne, of rank] obtain s g' where
    sel: "select_next rank g unc = Inr s"
    and step: "dsatur_step rank unc g = (Inr (unc |-| {|s|}), g')"
    and col: "node_color g' = (node_color g)(s := Some (get_smallest_available_color (nbr_colors g s)))"
    by blast
  from select_next_spec [OF inv ne, of rank] sel obtain pre post where
    l: "iter_set rank unc = pre @ s # post"
    and gt: "\<forall>y \<in> set pre. tuple_gt (?k s) (?k y)"
    and ge: "\<forall>y \<in> set post. \<not> tuple_gt (?k y) (?k s)"
    by auto
  have key: "?f y = Inr (?k y)" if "y \<in> set (iter_set rank unc)" for y
  proof -
    from that have "y |\<in>| unc"
      by simp
    with inv show ?thesis
      by (rule saturation_degree_key)
  qed
  have ks: "?f s = Inr (?k s)"
    by (rule key) (simp only: l, simp)
  have kpre: "\<forall>y \<in> set pre. \<exists>ky. ?f y = Inr ky \<and> tuple_gt (?k s) ky"
  proof
    fix y assume y: "y \<in> set pre"
    then have "y \<in> set (iter_set rank unc)"
      by (simp only: l, simp)
    from key [OF this] gt y show "\<exists>ky. ?f y = Inr ky \<and> tuple_gt (?k s) ky"
      by blast
  qed
  have kpost: "\<forall>y \<in> set post. \<exists>ky. ?f y = Inr ky \<and> \<not> tuple_gt ky (?k s)"
  proof
    fix y assume y: "y \<in> set post"
    then have "y \<in> set (iter_set rank unc)"
      by (simp only: l, simp)
    from key [OF this] ge y show "\<exists>ky. ?f y = Inr ky \<and> \<not> tuple_gt ky (?k s)"
      by blast
  qed
  from sel step col l ks kpre kpost show ?thesis
    by blast
qed

section \<open>Claim about the selection order of DSATUR\<close>

text \<open>
  Claim C4, as amended. On a consistent graph with at least one node, DSATUR first
  colours, with colour 0, the first node of maximum degree in the iteration order of the
  set of node ids: every id iterated before it has a smaller degree, no id iterated
  after it has a greater one. At every later turn of the loop it selects the first
  uncoloured node, in the iteration order of the set \<open>uncolored\<close>, whose key
  \<open>(saturation, degree)\<close> is lexicographically greatest, where the saturation of an
  uncoloured node is the number of distinct colours among its neighbours; it gives this
  node the smallest colour none of its neighbours has and removes it from \<open>uncolored\<close>.
  Ties are broken by the iteration order of the set, not by smallest id.
\<close>

theorem dsatur_selects_first_maximum_in_iteration_order:
  assumes "graph_inv g"
  shows "(fset_of_list (map fst (nodes (reset_colors g))) \<noteq> {||} \<longrightarrow>
      (\<exists>s pre post g1 ds.
         select_first rank (reset_colors g) (fset_of_list (map fst (nodes (reset_colors g)))) = Inr s \<and>
         dsatur_seed rank (fset_of_list (map fst (nodes (reset_colors g)))) (reset_colors g)
           = (Inr (fset_of_list (map fst (nodes (reset_colors g))) |-| {|s|}), g1) \<and>
         node_color g1 = (\<lambda>k. if k = s then Some 0 else None) \<and>
         iter_set rank (fset_of_list (map fst (nodes (reset_colors g)))) = pre @ s # post \<and>
         node_field (reset_colors g) degree s = Inr ds \<and>
         (\<forall>y \<in> set pre. \<exists>dy. node_field (reset_colors g) degree y = Inr dy \<and> dy < ds) \<and>
         (\<forall>y \<in> set post. \<exists>dy. node_field (reset_colors g) degree y = Inr dy \<and> dy \<le> ds))) \<and>
    (\<forall>(unc, g1) \<in> dsatur_states rank g. unc \<noteq> {||} \<longrightarrow>
      (\<forall>k. k |\<in>| unc \<longrightarrow> saturation_of g1 k = Some (int (fcard (nbr_colors g1 k)))) \<and>
      (\<exists>s pre post g2 ks.
         select_next rank g1 unc = Inr s \<and>
         dsatur_step rank unc g1 = (Inr (unc |-| {|s|}), g2) \<and>
         node_color g2 = (node_color g1)(s := Some (get_smallest_available_color (nbr_colors g1 s))) \<and>
         iter_set rank unc = pre @ s # post \<and>
         node_field g1 (\<lambda>n. (saturation n, degree n)) s = Inr ks \<and>
         (\<forall>y \<in> set pre. \<exists>ky. node_field g1 (\<lambda>n. (saturation n, degree n)) y = Inr ky \<and>
            tuple_gt ks ky) \<and>
         (\<forall>y \<in> set post. \<exists>ky. node_field g1 (\<lambda>n. (saturation n, degree n)) y = Inr ky \<and>
            \<not> tuple_gt ky ks)))"
proof (intro conjI impI)
  assume "fset_of_list (map fst (nodes (reset_colors g))) \<noteq> {||}"
  with assms show "\<exists>s pre post g1 ds.
         select_first rank (reset_colors g) (fset_of_list (map fst (nodes (reset_colors g)))) = Inr s \<and>
         dsatur_seed rank (fset_of_list (map fst (nodes (reset_colors g)))) (reset_colors g)
           = (Inr (fset_of_list (map fst (nodes (reset_colors g))) |-| {|s|}), g1) \<and>
         node_color g1 = (\<lambda>k. if k = s then Some 0 else None) \<and>
         iter_set rank (fset_of_list (map fst (nodes (reset_colors g)))) = pre @ s # post \<and>
         node_field (reset_colors g) degree s = Inr ds \<and>
         (\<forall>y \<in> set pre. \<exists>dy. node_field (reset_colors g) degree y = Inr dy \<and> dy < ds) \<and>
         (\<forall>y \<in> set post. \<exists>dy. node_field (reset_colors g) degree y = Inr dy \<and> dy \<le> ds)"
    by (rule seed_selection)
next
  have "(\<forall>k. k |\<in>| unc \<longrightarrow> saturation_of g1 k = Some (int (fcard (nbr_colors g1 k)))) \<and>
      (\<exists>s pre post g2 ks.
         select_next rank g1 unc = Inr s \<and>
         dsatur_step rank unc g1 = (Inr (unc |-| {|s|}), g2) \<and>
         node_color g2 = (node_color g1)(s := Some (get_smallest_available_color (nbr_colors g1 s))) \<and>
         iter_set rank unc = pre @ s # post \<and>
         node_field g1 (\<lambda>n. (saturation n, degree n)) s = Inr ks \<and>
         (\<forall>y \<in> set pre. \<exists>ky. node_field g1 (\<lambda>n. (saturation n, degree n)) y = Inr ky \<and>
            tuple_gt ks ky) \<and>
         (\<forall>y \<in> set post. \<exists>ky. node_field g1 (\<lambda>n. (saturation n, degree n)) y = Inr ky \<and>
            \<not> tuple_gt ky ks))"
    if st: "(unc, g1) \<in> dsatur_states rank g" and ne: "unc \<noteq> {||}" for unc g1
  proof -
    from dsatur_states_inv [OF st assms] have inv: "dsatur_inv g unc g1" .
    then have "\<forall>k. k |\<in>| unc \<longrightarrow> saturation_of g1 k = Some (int (fcard (nbr_colors g1 k)))"
      unfolding dsatur_inv_def by blast
    with next_selection [OF inv ne, of rank] show ?thesis
      by (rule conjI [rotated])
  qed
  then show "\<forall>(unc, g1) \<in> dsatur_states rank g. unc \<noteq> {||} \<longrightarrow>
      (\<forall>k. k |\<in>| unc \<longrightarrow> saturation_of g1 k = Some (int (fcard (nbr_colors g1 k)))) \<and>
      (\<exists>s pre post g2 ks.
         select_next rank g1 unc = Inr s \<and>
         dsatur_step rank unc g1 = (Inr (unc |-| {|s|}), g2) \<and>
         node_color g2 = (node_color g1)(s := Some (get_smallest_available_color (nbr_colors g1 s))) \<and>
         iter_set rank unc = pre @ s # post \<and>
         node_field g1 (\<lambda>n. (saturation n, degree n)) s = Inr ks \<and>
         (\<forall>y \<in> set pre. \<exists>ky. node_field g1 (\<lambda>n. (saturation n, degree n)) y = Inr ky \<and>
            tuple_gt ks ky) \<and>
         (\<forall>y \<in> set post. \<exists>ky. node_field g1 (\<lambda>n. (saturation n, degree n)) y = Inr ky \<and>
            \<not> tuple_gt ky ks))"
    by blast
qed

theorem dsatur_selects_first_maximum_in_iteration_order_witness:
  "graph_inv path3 \<and>
   fset_of_list (map fst (nodes (reset_colors path3))) \<noteq> {||} \<and>
   select_first hash_rank (reset_colors path3)
     (fset_of_list (map fst (nodes (reset_colors path3)))) = Inr 1 \<and>
   (\<exists>g1. dsatur_seed hash_rank (fset_of_list (map fst (nodes (reset_colors path3))))
            (reset_colors path3)
          = (Inr (fset_of_list (map fst (nodes (reset_colors path3))) |-| {|1|}), g1) \<and>
        node_color g1 1 = Some 0) \<and>
   (projr (fst (dsatur_seed hash_rank (fset_of_list (map fst (nodes (reset_colors path3))))
      (reset_colors path3))),
    snd (dsatur_seed hash_rank (fset_of_list (map fst (nodes (reset_colors path3))))
      (reset_colors path3))) \<in> dsatur_states hash_rank path3 \<and>
   projr (fst (dsatur_seed hash_rank (fset_of_list (map fst (nodes (reset_colors path3))))
      (reset_colors path3))) \<noteq> {||} \<and>
   select_next hash_rank
     (snd (dsatur_seed hash_rank (fset_of_list (map fst (nodes (reset_colors path3))))
        (reset_colors path3)))
     (projr (fst (dsatur_seed hash_rank (fset_of_list (map fst (nodes (reset_colors path3))))
        (reset_colors path3)))) = Inr 0 \<and>
   (\<exists>g2. fst (dsatur_step hash_rank
        (projr (fst (dsatur_seed hash_rank (fset_of_list (map fst (nodes (reset_colors path3))))
           (reset_colors path3))))
        (snd (dsatur_seed hash_rank (fset_of_list (map fst (nodes (reset_colors path3))))
           (reset_colors path3))))
      = Inr (projr (fst (dsatur_seed hash_rank (fset_of_list (map fst (nodes (reset_colors path3))))
           (reset_colors path3))) |-| {|0|}))"
proof -
  let ?ids = "fset_of_list (map fst (nodes (reset_colors path3)))"
  let ?X = "dsatur_seed hash_rank ?ids (reset_colors path3)"
  have inv: "graph_inv path3"
    by code_simp
  have ne: "?ids \<noteq> {||}"
    by code_simp
  have sf: "select_first hash_rank (reset_colors path3) ?ids = Inr 1"
    by code_simp
  have nl: "\<not> isl (fst ?X)"
    by code_simp
  have ne1: "projr (fst ?X) \<noteq> {||}"
    by code_simp
  have sn: "select_next hash_rank (snd ?X) (projr (fst ?X)) = Inr 0"
    by code_simp
  from nl have "?X = (Inr (projr (fst ?X)), snd ?X)"
    by (simp add: prod_eq_iff)
  then have mem: "(projr (fst ?X), snd ?X) \<in> dsatur_states hash_rank path3"
    by (rule dsatur_states.seed)
  note inst = dsatur_selects_first_maximum_in_iteration_order [OF inv, of hash_rank]
  from inst ne sf have a: "\<exists>g1. ?X = (Inr (?ids |-| {|1|}), g1) \<and> node_color g1 1 = Some 0"
    by auto
  from inst mem ne1 sn
  have b: "\<exists>g2. fst (dsatur_step hash_rank (projr (fst ?X)) (snd ?X)) = Inr (projr (fst ?X) |-| {|0|})"
    by fastforce
  from inv ne sf a mem ne1 sn b show ?thesis
    by (intro conjI)
qed

text \<open>
  The claim as stated fails: on the graph with the three nodes 3, 9 and 10 and no edge,
  all of degree 0, DSATUR colours node 9 first, and then, with nodes 3 and 10 both
  uncoloured, of saturation 0 and degree 0, it selects node 10; the smallest id among
  the ties is 3 both times.
\<close>

theorem dsatur_ties_not_broken_by_smallest_id:
  "map (\<lambda>(k, n). (k, degree n)) (nodes (reset_colors isolated_3_9_10)) = [(3, 0), (9, 0), (10, 0)] \<and>
   select_first hash_rank (reset_colors isolated_3_9_10)
     (fset_of_list (map fst (nodes (reset_colors isolated_3_9_10)))) = Inr 9 \<and>
   sorted_list_of_fset
     (projr (fst (dsatur_seed hash_rank (fset_of_list (map fst (nodes (reset_colors isolated_3_9_10))))
        (reset_colors isolated_3_9_10)))) = [3, 10] \<and>
   map (\<lambda>(k, n). (k, color n, saturation n, degree n))
     (nodes (snd (dsatur_seed hash_rank (fset_of_list (map fst (nodes (reset_colors isolated_3_9_10))))
        (reset_colors isolated_3_9_10))))
     = [(3, None, 0, 0), (9, Some 0, 0, 0), (10, None, 0, 0)] \<and>
   select_next hash_rank
     (snd (dsatur_seed hash_rank (fset_of_list (map fst (nodes (reset_colors isolated_3_9_10))))
        (reset_colors isolated_3_9_10)))
     (projr (fst (dsatur_seed hash_rank (fset_of_list (map fst (nodes (reset_colors isolated_3_9_10))))
        (reset_colors isolated_3_9_10)))) = Inr 10"
proof -
  let ?ids = "fset_of_list (map fst (nodes (reset_colors isolated_3_9_10)))"
  let ?X = "dsatur_seed hash_rank ?ids (reset_colors isolated_3_9_10)"
  have 1: "map (\<lambda>(k, n). (k, degree n)) (nodes (reset_colors isolated_3_9_10))
      = [(3, 0), (9, 0), (10, 0)]"
    by code_simp
  have 2: "select_first hash_rank (reset_colors isolated_3_9_10) ?ids = Inr 9"
    by code_simp
  have 3: "sorted_list_of_fset (projr (fst ?X)) = [3, 10]"
    by code_simp
  have 4: "map (\<lambda>(k, n). (k, color n, saturation n, degree n)) (nodes (snd ?X))
      = [(3, None, 0, 0), (9, Some 0, 0, 0), (10, None, 0, 0)]"
    by code_simp
  have 5: "select_next hash_rank (snd ?X) (projr (fst ?X)) = Inr 10"
    by code_simp
  from 1 2 3 4 5 show ?thesis
    by (intro conjI)
qed

end
